theory Spec2Isabelle
  imports Main
begin

section \<open>Data model (minisweeper.py, difficulty.py)\<close>

text \<open>
  The dataclass \<open>Cell\<close> and the attributes of class \<open>Board\<close>. Python integers are
  unbounded, hence \<open>int\<close>. The grid is a list of rows, each a list of cells, read as
  \<open>grid[y][x]\<close>.
\<close>

record cell =
  mine :: bool
  revealed :: bool
  flagged :: bool
  adj :: int

definition Cell :: cell where
  "Cell = \<lparr>mine = False, revealed = False, flagged = False, adj = 0\<rparr>"

record board =
  w :: int
  h :: int
  mine_target :: int
  grid :: "cell list list"
  mines_placed :: bool
  revealed_count :: int

record difficulty =
  name :: string
  width :: int
  height :: int
  mines :: int

text \<open>
  Every exception the modelled code can raise. The two \<open>ValueError\<close>s of the constructor
  are told apart by their message (\<open>InvalidMineCount\<close> carries \<open>max_mines\<close>, which the
  message prints); \<open>SampleLargerThanPopulation\<close> is the \<open>ValueError\<close> of
  \<open>random.sample\<close>; \<open>IndexError\<close> is a list subscript out of range; \<open>UnknownDifficulty\<close>
  is the \<open>ValueError\<close> of \<open>get_difficulty\<close>.
\<close>

datatype error =
    InvalidDimensions
  | InvalidMineCount int
  | SampleLargerThanPopulation
  | IndexError
  | UnknownDifficulty string

subsection \<open>List subscripts\<close>

text \<open>
  Python's subscript on a list of length \<open>n\<close>: indices \<open>0 .. n-1\<close> are taken as they
  are, \<open>-n .. -1\<close> count from the end, everything else raises \<open>IndexError\<close>.
\<close>

definition py_index :: "nat \<Rightarrow> int \<Rightarrow> nat option" where
  "py_index n i =
     (if 0 \<le> i \<and> i < int n then Some (nat i)
      else if - int n \<le> i \<and> i < 0 then Some (nat (int n + i))
      else None)"

text \<open>
  \<open>locate g x y\<close> is the position (row, column) of the object \<open>grid[y][x]\<close>, or \<open>None\<close>
  when one of the two subscripts raises. Cells are mutated in place and the lists are
  never restructured, so a cell object is identified by its position: \<open>cell_at\<close> reads
  the object, \<open>put_cell\<close> stores its mutated value.
\<close>

definition locate :: "cell list list \<Rightarrow> int \<Rightarrow> int \<Rightarrow> (nat \<times> nat) option" where
  "locate g x y =
     (case py_index (length g) y of
        None \<Rightarrow> None
      | Some j \<Rightarrow> (case py_index (length (g ! j)) x of
                    None \<Rightarrow> None
                  | Some i \<Rightarrow> Some (j, i)))"

definition cell_at :: "cell list list \<Rightarrow> nat \<times> nat \<Rightarrow> cell" where
  "cell_at g p = g ! fst p ! snd p"

definition put_cell :: "cell list list \<Rightarrow> nat \<times> nat \<Rightarrow> cell \<Rightarrow> cell list list" where
  "put_cell g p c = g[fst p := (g ! fst p)[snd p := c]]"

section \<open>Board operations (minisweeper.py)\<close>

text \<open>\<open>Board.__init__\<close>.\<close>

definition Board_init :: "int \<Rightarrow> int \<Rightarrow> int \<Rightarrow> error + board" where
  "Board_init wd ht m =
     (if wd \<le> 0 \<or> ht \<le> 0 then Inl InvalidDimensions
      else let max_mines = wd * ht - 1 in
        if \<not> (0 < m \<and> m \<le> max_mines) then Inl (InvalidMineCount max_mines)
        else Inr \<lparr>w = wd, h = ht, mine_target = m,
                  grid = replicate (nat ht) (replicate (nat wd) Cell),
                  mines_placed = False, revealed_count = 0\<rparr>)"

definition in_bounds :: "board \<Rightarrow> int \<Rightarrow> int \<Rightarrow> bool" where
  "in_bounds b x y \<longleftrightarrow> 0 \<le> x \<and> x < w b \<and> 0 \<le> y \<and> y < h b"

text \<open>
  \<open>Board.neighbors\<close>: the generator runs \<open>dy\<close> in the outer loop and \<open>dx\<close> in the inner
  one; it reads only \<open>w\<close> and \<open>h\<close>, which no operation changes, so the list of what it
  yields stands for it.
\<close>

definition neighbors :: "board \<Rightarrow> int \<Rightarrow> int \<Rightarrow> (int \<times> int) list" where
  "neighbors b x y =
     [(x + dx, y + dy). dy \<leftarrow> [-1, 0, 1], dx \<leftarrow> [-1, 0, 1],
        \<not> (dx = 0 \<and> dy = 0), in_bounds b (x + dx) (y + dy)]"

definition all_coords :: "board \<Rightarrow> (int \<times> int) list" where
  "all_coords b = [(x, y). y \<leftarrow> [0 .. h b - 1], x \<leftarrow> [0 .. w b - 1]]"

text \<open>
  The candidate pool of \<open>place_mines_excluding\<close> (lines 59 to 65): all coordinates
  outside the safe zone, or, when these are fewer than \<open>mine_target\<close>, all coordinates
  but the clicked one.
\<close>

definition candidates :: "board \<Rightarrow> int \<Rightarrow> int \<Rightarrow> (int \<times> int) list" where
  "candidates b safe_x safe_y =
     (let excluded = set ((safe_x, safe_y) # neighbors b safe_x safe_y);
          cands = filter (\<lambda>c. c \<notin> excluded) (all_coords b)
      in if int (length cands) < mine_target b
         then filter (\<lambda>c. c \<noteq> (safe_x, safe_y)) (all_coords b)
         else cands)"

text \<open>
  \<open>random.sample(population, k)\<close> is library code: it raises \<open>ValueError\<close> when \<open>k\<close> is
  negative or larger than the population, and otherwise returns \<open>k\<close> elements taken at
  distinct positions. The operations below take its result \<open>ms\<close> as an argument; on a
  population without duplicates (as the candidate pool is) the possible results are the
  lists satisfying \<open>is_sample\<close>.
\<close>

definition is_sample :: "'a list \<Rightarrow> int \<Rightarrow> 'a list \<Rightarrow> bool" where
  "is_sample pop k ms \<longleftrightarrow> int (length ms) = k \<and> distinct ms \<and> set ms \<subseteq> set pop"

text \<open>The loop \<open>for x, y in mines: self.grid[y][x].mine = True\<close>.\<close>

fun mark_mines :: "cell list list \<Rightarrow> (int \<times> int) list \<Rightarrow> error + cell list list" where
  "mark_mines g [] = Inr g"
| "mark_mines g ((x, y) # ms) =
     (case locate g x y of
        None \<Rightarrow> Inl IndexError
      | Some p \<Rightarrow> mark_mines (put_cell g p ((cell_at g p)\<lparr>mine := True\<rparr>)) ms)"

text \<open>\<open>sum(1 for nx, ny in self.neighbors(x, y) if self.grid[ny][nx].mine)\<close>.\<close>

fun count_mined :: "cell list list \<Rightarrow> (int \<times> int) list \<Rightarrow> error + int" where
  "count_mined g [] = Inr 0"
| "count_mined g ((nx, ny) # ns) =
     (case locate g nx ny of
        None \<Rightarrow> Inl IndexError
      | Some p \<Rightarrow> (case count_mined g ns of
                    Inl e \<Rightarrow> Inl e
                  | Inr n \<Rightarrow> Inr ((if mine (cell_at g p) then 1 else 0) + n)))"

text \<open>
  The adjacency loops (lines 70 to 74), run over the coordinates in the order of the
  two nested \<open>range\<close> loops.
\<close>

fun compute_adj :: "board \<Rightarrow> (int \<times> int) list \<Rightarrow> error + board" where
  "compute_adj b [] = Inr b"
| "compute_adj b ((x, y) # cs) =
     (case locate (grid b) x y of
        None \<Rightarrow> Inl IndexError
      | Some p \<Rightarrow>
          if mine (cell_at (grid b) p) then compute_adj b cs
          else (case count_mined (grid b) (neighbors b x y) of
                  Inl e \<Rightarrow> Inl e
                | Inr n \<Rightarrow>
                    compute_adj
                      (b\<lparr>grid := put_cell (grid b) p ((cell_at (grid b) p)\<lparr>adj := n\<rparr>)\<rparr>) cs))"

text \<open>\<open>Board.place_mines_excluding\<close>, with \<open>ms\<close> the result of \<open>random.sample\<close>.\<close>

definition place_mines_excluding ::
  "(int \<times> int) list \<Rightarrow> board \<Rightarrow> int \<Rightarrow> int \<Rightarrow> error + board" where
  "place_mines_excluding ms b safe_x safe_y =
     (if mine_target b < 0 \<or> int (length (candidates b safe_x safe_y)) < mine_target b
      then Inl SampleLargerThanPopulation
      else (case mark_mines (grid b) ms of
              Inl e \<Rightarrow> Inl e
            | Inr g1 \<Rightarrow>
                (case compute_adj (b\<lparr>grid := g1\<rparr>) (all_coords b) of
                   Inl e \<Rightarrow> Inl e
                 | Inr b2 \<Rightarrow> Inr (b2\<lparr>mines_placed := True\<rparr>))))"

text \<open>
  The body of the \<open>for nx, ny in self.neighbors(cx, cy)\<close> loop of the flood fill, over
  the neighbours still to visit. The stack is a Python list: \<open>append\<close> adds at the end,
  \<open>pop\<close> takes from the end.
\<close>

fun flood_neighbors ::
  "board \<Rightarrow> (int \<times> int) list \<Rightarrow> (int \<times> int) set \<Rightarrow> (int \<times> int) list
     \<Rightarrow> error + (board \<times> (int \<times> int) list \<times> (int \<times> int) set)" where
  "flood_neighbors b stack visited [] = Inr (b, stack, visited)"
| "flood_neighbors b stack visited ((nx, ny) # ns) =
     (case locate (grid b) nx ny of
        None \<Rightarrow> Inl IndexError
      | Some p \<Rightarrow>
          let ncell = cell_at (grid b) p in
          if revealed ncell \<or> flagged ncell then flood_neighbors b stack visited ns
          else if mine ncell then flood_neighbors b stack visited ns
          else
            let b' = b\<lparr>grid := put_cell (grid b) p (ncell\<lparr>revealed := True\<rparr>)\<rparr>;
                visited' = (if (nx, ny) \<notin> visited then insert (nx, ny) visited else visited);
                b'' = b'\<lparr>revealed_count := revealed_count b' + 1\<rparr>
            in if adj ncell = 0 then flood_neighbors b'' (stack @ [(nx, ny)]) visited' ns
               else flood_neighbors b'' stack visited' ns)"

text \<open>The number of cells of the grid that are not revealed.\<close>

definition unrevealed :: "cell list list \<Rightarrow> nat" where
  "unrevealed g = sum_list (map (\<lambda>row. length (filter (\<lambda>c. \<not> revealed c) row)) g)"

lemma py_index_Some: "py_index n i = Some j \<Longrightarrow> j < n"
  by (auto simp: py_index_def split: if_splits)

lemma locate_Some:
  "locate g x y = Some p \<Longrightarrow> fst p < length g \<and> snd p < length (g ! fst p)"
  by (auto simp: locate_def split: option.splits dest: py_index_Some)

lemma filter_update_unrevealed:
  assumes "i < length row" "\<not> revealed (row ! i)" "revealed c"
  shows "Suc (length (filter (\<lambda>c. \<not> revealed c) (row[i := c]))) = length (filter (\<lambda>c. \<not> revealed c) row)"
proof -
  have row: "row = take i row @ (row ! i) # drop (Suc i) row"
    using assms(1) by (simp add: id_take_nth_drop)
  have upd: "row[i := c] = take i row @ c # drop (Suc i) row"
    using assms(1) by (simp add: upd_conv_take_nth_drop)
  show ?thesis
    by (subst (2) row, subst upd) (use assms in simp)
qed

lemma unrevealed_put_cell:
  assumes "fst p < length g" "snd p < length (g ! fst p)"
    "\<not> revealed (cell_at g p)" "revealed c"
  shows "Suc (unrevealed (put_cell g p c)) = unrevealed g"
proof -
  let ?f = "\<lambda>row. length (filter (\<lambda>c. \<not> revealed c) row)"
  have g: "g = take (fst p) g @ (g ! fst p) # drop (Suc (fst p)) g"
    using assms(1) by (simp add: id_take_nth_drop)
  have upd: "put_cell g p c = take (fst p) g @ ((g ! fst p)[snd p := c]) # drop (Suc (fst p)) g"
    using assms(1) by (simp add: put_cell_def upd_conv_take_nth_drop)
  have "Suc (?f ((g ! fst p)[snd p := c])) = ?f (g ! fst p)"
    using assms by (intro filter_update_unrevealed) (simp_all add: cell_at_def)
  then show ?thesis
    unfolding unrevealed_def by (subst (2) g, subst upd) simp
qed

lemma flood_neighbors_measure:
  "flood_neighbors b st v ns = Inr (b', st', v') \<Longrightarrow>
     unrevealed (grid b') + length st' \<le> unrevealed (grid b) + length st"
proof (induction ns arbitrary: b st v)
  case Nil
  then show ?case by simp
next
  case (Cons n ns)
  obtain nx ny where n: "n = (nx, ny)" by (cases n)
  from Cons.prems obtain p where p: "locate (grid b) nx ny = Some p"
    by (auto simp: n split: option.splits)
  let ?c = "cell_at (grid b) p"
  show ?case
  proof (cases "revealed ?c \<or> flagged ?c \<or> mine ?c")
    case True
    with Cons.prems p have "flood_neighbors b st v ns = Inr (b', st', v')"
      by (auto simp: n Let_def split: if_splits)
    then show ?thesis by (rule Cons.IH)
  next
    case False
    let ?b = "b\<lparr>grid := put_cell (grid b) p (?c\<lparr>revealed := True\<rparr>), revealed_count := revealed_count b + 1\<rparr>"
    have u: "Suc (unrevealed (grid ?b)) = unrevealed (grid b)"
      using locate_Some[OF p] False by (simp add: unrevealed_put_cell)
    from Cons.prems p False
    have "flood_neighbors ?b (if adj ?c = 0 then st @ [(nx, ny)] else st)
            (if (nx, ny) \<notin> v then insert (nx, ny) v else v) ns = Inr (b', st', v')"
      by (auto simp: n Let_def split: if_splits)
    from Cons.IH[OF this] u show ?thesis by (auto split: if_splits)
  qed
qed

text \<open>
  The \<open>while stack:\<close> loop of the flood fill. Every pass pops one cell and pushes
  only cells it has just turned from unrevealed to revealed, so the number of
  unrevealed cells plus the height of the stack decreases.
\<close>

function flood_loop :: "board \<Rightarrow> (int \<times> int) list \<Rightarrow> (int \<times> int) set \<Rightarrow> error + board" where
  "flood_loop b stack visited =
     (if stack = [] then Inr b
      else (case last stack of (cx, cy) \<Rightarrow>
              (case flood_neighbors b (butlast stack) visited (neighbors b cx cy) of
                 Inl e \<Rightarrow> Inl e
               | Inr (b', stack', visited') \<Rightarrow> flood_loop b' stack' visited')))"
  by pat_completeness auto
termination
  apply (relation "measure (\<lambda>(b, stack, visited). unrevealed (grid b) + length stack)")
   apply simp
  subgoal for b stack visited cx cy r b' rest stack' visited'
    using flood_neighbors_measure[of b "butlast stack" visited "neighbors b cx cy" b' stack' visited']
    by (cases stack rule: rev_cases) auto
  done

declare flood_loop.simps [simp del]

text \<open>
  \<open>Board.reveal\<close>, returning the board and the pair \<open>(ok, hit_mine)\<close>. The variable
  \<open>cell\<close> is a reference to the object at position \<open>p\<close>, which
  \<open>place_mines_excluding\<close> may have mutated: it is read again after the placement.
\<close>

definition reveal ::
  "(int \<times> int) list \<Rightarrow> board \<Rightarrow> int \<Rightarrow> int \<Rightarrow> error + (board \<times> bool \<times> bool)" where
  "reveal ms b x y =
     (if \<not> in_bounds b x y then Inr (b, False, False)
      else (case locate (grid b) x y of
              None \<Rightarrow> Inl IndexError
            | Some p \<Rightarrow>
                if flagged (cell_at (grid b) p) then Inr (b, False, False)
                else if revealed (cell_at (grid b) p) then Inr (b, True, False)
                else (case (if \<not> mines_placed b then place_mines_excluding ms b x y
                            else Inr b) of
                        Inl e \<Rightarrow> Inl e
                      | Inr b1 \<Rightarrow>
                          let cell1 = cell_at (grid b1) p;
                              b2 = b1\<lparr>grid := put_cell (grid b1) p (cell1\<lparr>revealed := True\<rparr>)\<rparr>;
                              b3 = b2\<lparr>revealed_count := revealed_count b2 + 1\<rparr>
                          in if mine cell1 then Inr (b3, True, True)
                             else if adj cell1 = 0
                               then (case flood_loop b3 [(x, y)] (set [(x, y)]) of
                                       Inl e \<Rightarrow> Inl e
                                     | Inr b4 \<Rightarrow> Inr (b4, True, False))
                               else Inr (b3, True, False))))"

text \<open>\<open>Board.toggle_flag\<close>, returning the board and the result.\<close>

definition toggle_flag :: "board \<Rightarrow> int \<Rightarrow> int \<Rightarrow> error + (board \<times> bool)" where
  "toggle_flag b x y =
     (if \<not> in_bounds b x y then Inr (b, False)
      else (case locate (grid b) x y of
              None \<Rightarrow> Inl IndexError
            | Some p \<Rightarrow>
                if revealed (cell_at (grid b) p) then Inr (b, False)
                else Inr (b\<lparr>grid := put_cell (grid b) p
                             ((cell_at (grid b) p)\<lparr>flagged := \<not> flagged (cell_at (grid b) p)\<rparr>)\<rparr>,
                          True)))"

text \<open>\<open>Board.all_safe_revealed\<close>.\<close>

definition all_safe_revealed :: "board \<Rightarrow> bool" where
  "all_safe_revealed b \<longleftrightarrow>
     (let total_cells = w b * h b in revealed_count b = total_cells - mine_target b)"

section \<open>The chord of the GUI (game.py)\<close>

text \<open>
  Of \<open>MinesweeperApp\<close> the chord reads and writes \<open>self.board\<close> and \<open>self.game_over\<close>;
  the message box it opens is returned as a value.
\<close>

record app =
  board :: "board option"
  game_over :: bool

datatype dialog = GameOverDialog | WinDialog

text \<open>The count \<open>flagged\<close> of \<open>on_chord\<close> (lines 212 to 215).\<close>

fun count_flagged :: "cell list list \<Rightarrow> (int \<times> int) list \<Rightarrow> error + int" where
  "count_flagged g [] = Inr 0"
| "count_flagged g ((nx, ny) # ns) =
     (case locate g nx ny of
        None \<Rightarrow> Inl IndexError
      | Some p \<Rightarrow> (case count_flagged g ns of
                    Inl e \<Rightarrow> Inl e
                  | Inr n \<Rightarrow> Inr ((if flagged (cell_at g p) then 1 else 0) + n)))"

text \<open>
  The revealing loop of \<open>on_chord\<close> (lines 219 to 228), returning the board and whether
  a reveal hit a mine, at which the loop returns at once. A call of \<open>reveal\<close> made here
  is never rejected, so at most the first one places mines: one sample \<open>ms\<close> serves all.
\<close>

fun chord_loop :: "(int \<times> int) list \<Rightarrow> board \<Rightarrow> (int \<times> int) list \<Rightarrow> error + (board \<times> bool)" where
  "chord_loop ms b [] = Inr (b, False)"
| "chord_loop ms b ((nx, ny) # ns) =
     (case locate (grid b) nx ny of
        None \<Rightarrow> Inl IndexError
      | Some p \<Rightarrow>
          if \<not> flagged (cell_at (grid b) p) \<and> \<not> revealed (cell_at (grid b) p)
          then (case reveal ms b nx ny of
                  Inl e \<Rightarrow> Inl e
                | Inr (b', ok, hit) \<Rightarrow> if hit then Inr (b', True) else chord_loop ms b' ns)
          else chord_loop ms b ns)"

text \<open>\<open>MinesweeperApp.on_chord\<close>.\<close>

definition on_chord ::
  "(int \<times> int) list \<Rightarrow> app \<Rightarrow> int \<Rightarrow> int \<Rightarrow> error + (app \<times> dialog option)" where
  "on_chord ms a x y =
     (if game_over a then Inr (a, None)
      else (case board a of
              None \<Rightarrow> Inr (a, None)
            | Some b \<Rightarrow>
               (case locate (grid b) x y of
                  None \<Rightarrow> Inl IndexError
                | Some p \<Rightarrow>
                    if \<not> revealed (cell_at (grid b) p) \<or> adj (cell_at (grid b) p) \<le> 0
                    then Inr (a, None)
                    else (case count_flagged (grid b) (neighbors b x y) of
                            Inl e \<Rightarrow> Inl e
                          | Inr fl \<Rightarrow>
                              if fl \<noteq> adj (cell_at (grid b) p) then Inr (a, None)
                              else (case chord_loop ms b (neighbors b x y) of
                                      Inl e \<Rightarrow> Inl e
                                    | Inr (b', hit) \<Rightarrow>
                                        if hit
                                        then Inr (a\<lparr>board := Some b', game_over := True\<rparr>,
                                                  Some GameOverDialog)
                                        else if all_safe_revealed b'
                                        then Inr (a\<lparr>board := Some b', game_over := True\<rparr>,
                                                  Some WinDialog)
                                        else Inr (a\<lparr>board := Some b'\<rparr>, None))))))"

section \<open>Difficulty presets (difficulty.py)\<close>

text \<open>The dictionary \<open>_LEVELS\<close>, in the order of its literal.\<close>

definition LEVELS :: "(string \<times> difficulty) list" where
  "LEVELS =
     [(''easy'', \<lparr>name = ''easy'', width = 9, height = 9, mines = 10\<rparr>),
      (''medium'', \<lparr>name = ''medium'', width = 16, height = 16, mines = 40\<rparr>),
      (''hard'', \<lparr>name = ''hard'', width = 30, height = 16, mines = 99\<rparr>),
      (''too hard'', \<lparr>name = ''too hard'', width = 30, height = 24, mines = 180\<rparr>)]"

text \<open>
  \<open>normalize_name\<close>. A name is a string of code points below 256, one \<open>char\<close> each.
  On these, the white space that \<open>str.strip\<close> and \<open>str.split\<close> remove is tab, line
  feed, vertical tab, form feed, carriage return, the four separators 28 to 31, space,
  next line (U+0085) and no-break space (U+00A0); \<open>str.lower\<close> maps \<open>A\<close> to \<open>Z\<close> and
  the capital letters U+00C0 to U+00DE, the multiplication sign U+00D7 excepted, to
  the letter 32 places further, and leaves every other code point as it is.
\<close>

definition is_space :: "char \<Rightarrow> bool" where
  "is_space c \<longleftrightarrow>
     (of_char c :: nat) \<in> {9, 10, 11, 12, 13, 28, 29, 30, 31, 32, 133, 160}"

definition lower_char :: "char \<Rightarrow> char" where
  "lower_char c =
     (let n = (of_char c :: nat)
      in if (65 \<le> n \<and> n \<le> 90) \<or> (192 \<le> n \<and> n \<le> 222 \<and> n \<noteq> 215)
         then char_of (n + 32) else c)"

definition strip :: "string \<Rightarrow> string" where
  "strip s = rev (dropWhile is_space (rev (dropWhile is_space s)))"

definition replace_char :: "char \<Rightarrow> char \<Rightarrow> string \<Rightarrow> string" where
  "replace_char old new s = map (\<lambda>c. if c = old then new else c) s"

fun split_ws :: "string \<Rightarrow> string \<Rightarrow> string list" where
  "split_ws cur [] = (if cur = [] then [] else [cur])"
| "split_ws cur (c # cs) =
     (if is_space c then (if cur = [] then split_ws [] cs else cur # split_ws [] cs)
      else split_ws (cur @ [c]) cs)"

fun join :: "string \<Rightarrow> string list \<Rightarrow> string" where
  "join sep [] = []"
| "join sep [x] = x"
| "join sep (x # y # ys) = x @ sep @ join sep (y # ys)"

definition normalize_name :: "string \<Rightarrow> string" where
  "normalize_name nm =
     (let key = replace_char (CHR ''-'') (CHR '' '')
                  (replace_char (CHR ''_'') (CHR '' '') (map lower_char (strip nm)))
      in join '' '' (filter (\<lambda>part. part \<noteq> []) (split_ws [] key)))"

definition get_difficulty :: "string \<Rightarrow> error + difficulty" where
  "get_difficulty nm =
     (let key = normalize_name nm
      in case map_of LEVELS key of
           None \<Rightarrow> Inl (UnknownDifficulty nm)
         | Some d \<Rightarrow> Inr d)"

definition list_difficulties :: "(string \<times> difficulty) list" where
  "list_difficulties = LEVELS"


section \<open>Well-formed boards and what the operations leave alone\<close>

text \<open>
  A board is well formed when its grid has \<open>h\<close> rows of \<open>w\<close> cells. \<open>cell_of b (x, y)\<close>
  is the cell at an in-bounds coordinate. \<open>frame b b'\<close> says that \<open>b'\<close> has the
  dimensions, the mine target, the placement flag and the grid shape of \<open>b\<close>.
\<close>

definition wf_board :: "board \<Rightarrow> bool" where
  "wf_board b \<longleftrightarrow>
     0 < w b \<and> 0 < h b \<and> map length (grid b) = replicate (nat (h b)) (nat (w b))"

definition cell_of :: "board \<Rightarrow> int \<times> int \<Rightarrow> cell" where
  "cell_of b c = cell_at (grid b) (nat (snd c), nat (fst c))"

definition inside :: "board \<Rightarrow> int \<times> int \<Rightarrow> bool" where
  "inside b c \<longleftrightarrow> in_bounds b (fst c) (snd c)"

lemma wf_board_length: "wf_board b \<Longrightarrow> length (grid b) = nat (h b)"
  by (metis wf_board_def length_map length_replicate)

lemma wf_board_row:
  assumes "wf_board b" "j < nat (h b)"
  shows "length (grid b ! j) = nat (w b)"
proof -
  have "map length (grid b) ! j = replicate (nat (h b)) (nat (w b)) ! j"
    using assms(1) by (simp add: wf_board_def)
  then show ?thesis
    using assms wf_board_length[OF assms(1)] by simp
qed

lemma locate_in_bounds:
  assumes "wf_board b" "in_bounds b x y"
  shows "locate (grid b) x y = Some (nat y, nat x)"
proof -
  have y: "py_index (length (grid b)) y = Some (nat y)"
    using assms by (simp add: py_index_def in_bounds_def wf_board_length)
  have "nat y < nat (h b)" using assms(2) by (simp add: in_bounds_def)
  then have "length (grid b ! nat y) = nat (w b)" by (rule wf_board_row[OF assms(1)])
  then have x: "py_index (length (grid b ! nat y)) x = Some (nat x)"
    using assms(2) by (simp add: py_index_def in_bounds_def)
  show ?thesis by (simp add: locate_def y x)
qed

lemma map_length_put_cell [simp]: "map length (put_cell g p c) = map length g"
  by (cases "fst p < length g")
     (simp_all add: put_cell_def map_update list_update_same_conv list_update_beyond)

lemma length_put_cell [simp]: "length (put_cell g p c) = length g"
  by (simp add: put_cell_def)

lemma cell_at_put_cell_same:
  "fst p < length g \<Longrightarrow> snd p < length (g ! fst p) \<Longrightarrow> cell_at (put_cell g p c) p = c"
  by (simp add: cell_at_def put_cell_def)

lemma cell_at_put_cell_other:
  "q \<noteq> p \<Longrightarrow> cell_at (put_cell g p c) q = cell_at g q"
  by (cases "fst p < length g"; cases "fst q = fst p")
     (auto simp: cell_at_def put_cell_def prod_eq_iff not_less list_update_beyond)

lemma in_bounds_pos_inj:
  "in_bounds b x y \<Longrightarrow> in_bounds b x' y' \<Longrightarrow> (nat y, nat x) = (nat y', nat x') \<longleftrightarrow> (x, y) = (x', y')"
  by (auto simp: in_bounds_def)

lemma neighbors_unfold:
  "neighbors b x y =
     (if in_bounds b (x - 1) (y - 1) then [(x - 1, y - 1)] else []) @
     (if in_bounds b x (y - 1) then [(x, y - 1)] else []) @
     (if in_bounds b (x + 1) (y - 1) then [(x + 1, y - 1)] else []) @
     (if in_bounds b (x - 1) y then [(x - 1, y)] else []) @
     (if in_bounds b (x + 1) y then [(x + 1, y)] else []) @
     (if in_bounds b (x - 1) (y + 1) then [(x - 1, y + 1)] else []) @
     (if in_bounds b x (y + 1) then [(x, y + 1)] else []) @
     (if in_bounds b (x + 1) (y + 1) then [(x + 1, y + 1)] else [])"
  by (simp add: neighbors_def)

lemma set_all_coords: "set (all_coords b) = {(x, y). in_bounds b x y}"
  by (auto simp: all_coords_def in_bounds_def)

lemma length_all_coords: "0 \<le> w b \<Longrightarrow> 0 \<le> h b \<Longrightarrow> int (length (all_coords b)) = w b * h b"
  by (simp add: all_coords_def length_concat comp_def sum_list_triv algebra_simps)

lemma neighbors_filter:
  "neighbors b x y =
     filter (\<lambda>c. in_bounds b (fst c) (snd c))
       (map (\<lambda>d. (x + fst d, y + snd d))
          [(-1, -1), (0, -1), (1, -1), (-1, 0), (1, 0), (-1, 1), (0, 1), (1, 1)])"
  by (simp add: neighbors_def)

lemma distinct_neighbors: "distinct (neighbors b x y)"
  unfolding neighbors_filter by (rule distinct_filter) simp

lemma set_neighbors:
  "set (neighbors b x y) =
     {c. in_bounds b (fst c) (snd c) \<and>
         c \<in> {(x - 1, y - 1), (x, y - 1), (x + 1, y - 1), (x - 1, y), (x + 1, y),
               (x - 1, y + 1), (x, y + 1), (x + 1, y + 1)}}"
  by (simp only: neighbors_filter set_filter) auto

lemma in_neighbors:
  "(nx, ny) \<in> set (neighbors b x y) \<longleftrightarrow>
     in_bounds b nx ny \<and> \<bar>nx - x\<bar> \<le> 1 \<and> \<bar>ny - y\<bar> \<le> 1 \<and> (nx, ny) \<noteq> (x, y)"
proof -
  have "\<bar>nx - x\<bar> \<le> 1 \<longleftrightarrow> nx = x - 1 \<or> nx = x \<or> nx = x + 1" by arith
  moreover have "\<bar>ny - y\<bar> \<le> 1 \<longleftrightarrow> ny = y - 1 \<or> ny = y \<or> ny = y + 1" by arith
  ultimately show ?thesis
    unfolding set_neighbors by (simp del: abs_le_iff) (safe; simp)
qed

lemma neighbors_in_bounds: "c \<in> set (neighbors b x y) \<Longrightarrow> in_bounds b (fst c) (snd c)"
  by (simp add: set_neighbors)

lemma all_coords_product:
  "all_coords b = map prod.swap (List.product [0 .. h b - 1] [0 .. w b - 1])"
  by (simp add: all_coords_def product_concat_map map_concat comp_def)

lemma distinct_all_coords: "distinct (all_coords b)"
  unfolding all_coords_product
  by (simp add: distinct_map distinct_product inj_on_def)

definition frame :: "board \<Rightarrow> board \<Rightarrow> bool" where
  "frame b b' \<longleftrightarrow>
     w b' = w b \<and> h b' = h b \<and> mine_target b' = mine_target b \<and>
     mines_placed b' = mines_placed b \<and> map length (grid b') = map length (grid b)"

lemma frame_refl: "frame b b"
  by (simp add: frame_def)

lemma frame_trans: "frame b b1 \<Longrightarrow> frame b1 b2 \<Longrightarrow> frame b b2"
  by (simp add: frame_def)

lemma frame_wf: "frame b b' \<Longrightarrow> wf_board b \<Longrightarrow> wf_board b'"
  by (simp add: frame_def wf_board_def)

lemma frame_in_bounds: "frame b b' \<Longrightarrow> in_bounds b' x y = in_bounds b x y"
  by (simp add: frame_def in_bounds_def)

lemma frame_neighbors: "frame b b' \<Longrightarrow> neighbors b' x y = neighbors b x y"
  by (simp add: neighbors_filter frame_in_bounds)

lemma frame_all_coords: "frame b b' \<Longrightarrow> all_coords b' = all_coords b"
  by (simp add: all_coords_def frame_def)

lemma mark_mines_shape: "mark_mines g ms = Inr g' \<Longrightarrow> map length g' = map length g"
proof (induction ms arbitrary: g)
  case Nil
  then show ?case by simp
next
  case (Cons m ms)
  obtain x y where m: "m = (x, y)" by (cases m)
  from Cons.prems obtain p where
    "mark_mines (put_cell g p ((cell_at g p)\<lparr>mine := True\<rparr>)) ms = Inr g'"
    by (auto simp: m split: option.splits)
  from Cons.IH[OF this] show ?case by simp
qed

lemma compute_adj_frame:
  "compute_adj b cs = Inr b' \<Longrightarrow> frame b b' \<and> revealed_count b' = revealed_count b"
proof (induction cs arbitrary: b)
  case Nil
  then show ?case by (simp add: frame_refl)
next
  case (Cons c cs)
  obtain x y where c: "c = (x, y)" by (cases c)
  from Cons.prems obtain p where p: "locate (grid b) x y = Some p"
    by (auto simp: c split: option.splits)
  show ?case
  proof (cases "mine (cell_at (grid b) p)")
    case True
    with Cons.prems p have "compute_adj b cs = Inr b'" by (simp add: c)
    then show ?thesis by (rule Cons.IH)
  next
    case False
    with Cons.prems p obtain n where
      "compute_adj (b\<lparr>grid := put_cell (grid b) p ((cell_at (grid b) p)\<lparr>adj := n\<rparr>)\<rparr>) cs = Inr b'"
      by (auto simp: c split: sum.splits)
    from Cons.IH[OF this] show ?thesis by (simp add: frame_def)
  qed
qed

lemma flood_neighbors_frame:
  "flood_neighbors b st v ns = Inr (b', st', v') \<Longrightarrow> frame b b'"
proof (induction ns arbitrary: b st v)
  case Nil
  then show ?case by (simp add: frame_refl)
next
  case (Cons n ns)
  obtain nx ny where n: "n = (nx, ny)" by (cases n)
  from Cons.prems obtain p where p: "locate (grid b) nx ny = Some p"
    by (auto simp: n split: option.splits)
  let ?c = "cell_at (grid b) p"
  show ?case
  proof (cases "revealed ?c \<or> flagged ?c \<or> mine ?c")
    case True
    with Cons.prems p have "flood_neighbors b st v ns = Inr (b', st', v')"
      by (auto simp: n Let_def split: if_splits)
    then show ?thesis by (rule Cons.IH)
  next
    case False
    let ?b = "b\<lparr>grid := put_cell (grid b) p (?c\<lparr>revealed := True\<rparr>), revealed_count := revealed_count b + 1\<rparr>"
    from Cons.prems p False
    have "flood_neighbors ?b (if adj ?c = 0 then st @ [(nx, ny)] else st)
            (if (nx, ny) \<notin> v then insert (nx, ny) v else v) ns = Inr (b', st', v')"
      by (auto simp: n Let_def split: if_splits)
    from Cons.IH[OF this] show ?thesis by (simp add: frame_def)
  qed
qed

lemma flood_loop_Nil: "flood_loop b [] v = Inr b"
  by (subst flood_loop.simps) simp

lemma flood_loop_snoc:
  "flood_loop b (st @ [c]) v =
     (case flood_neighbors b st v (neighbors b (fst c) (snd c)) of
        Inl e \<Rightarrow> Inl e
      | Inr (b', st', v') \<Rightarrow> flood_loop b' st' v')"
  by (subst flood_loop.simps) (simp add: case_prod_beta)

lemma flood_loop_induct [case_names Nil snoc]:
  assumes "\<And>b v. P b [] v"
    and "\<And>b st c v.
           (\<And>b1 st1 v1.
              flood_neighbors b st v (neighbors b (fst c) (snd c)) = Inr (b1, st1, v1) \<Longrightarrow>
              P b1 st1 v1) \<Longrightarrow>
           P b (st @ [c]) v"
  shows "P b st v"
proof (induction b st v rule: flood_loop.induct)
  case (1 b stack visited)
  show ?case
  proof (cases stack rule: rev_cases)
    case Nil
    then show ?thesis by (simp add: assms(1))
  next
    case (snoc st c)
    show ?thesis
      unfolding snoc
    proof (rule assms(2))
      fix b1 st1 v1
      assume "flood_neighbors b st visited (neighbors b (fst c) (snd c)) = Inr (b1, st1, v1)"
      then show "P b1 st1 v1"
        using "1.IH"[of "fst c" "snd c" "(b1, st1, v1)" b1 "(st1, v1)" st1 v1] snoc
        by simp
    qed
  qed
qed

lemma flood_loop_frame: "flood_loop b st v = Inr b' \<Longrightarrow> frame b b'"
proof (induction b st v rule: flood_loop_induct)
  case (Nil b v)
  then show ?case by (simp add: flood_loop_Nil frame_refl)
next
  case (snoc b st c v)
  from snoc.prems obtain b1 st1 v1 where
    fn: "flood_neighbors b st v (neighbors b (fst c) (snd c)) = Inr (b1, st1, v1)"
    and fl: "flood_loop b1 st1 v1 = Inr b'"
    by (auto simp: flood_loop_snoc split: sum.splits)
  from flood_neighbors_frame[OF fn] snoc.IH[OF fn fl] show ?case
    by (rule frame_trans)
qed


subsection \<open>The cases of reveal\<close>

lemma cell_of_put_cell:
  assumes "wf_board b" "in_bounds b x y" "in_bounds b x' y'"
  shows "cell_at (put_cell (grid b) (nat y, nat x) c) (nat y', nat x') =
           (if (x', y') = (x, y) then c else cell_of b (x', y'))"
proof (cases "(x', y') = (x, y)")
  case True
  have "nat y < nat (h b)" using assms(2) by (simp add: in_bounds_def)
  then have "nat y < length (grid b)" "nat x < length (grid b ! nat y)"
    using assms(1,2) by (simp_all add: wf_board_length wf_board_row in_bounds_def)
  moreover from True have "x' = x" "y' = y" by simp_all
  ultimately show ?thesis by (simp add: cell_at_put_cell_same)
next
  case False
  then have "(nat y', nat x') \<noteq> (nat y, nat x)"
    using assms(2,3) by (auto simp: in_bounds_def)
  then have "cell_at (put_cell (grid b) (nat y, nat x) c) (nat y', nat x') = cell_at (grid b) (nat y', nat x')"
    by (rule cell_at_put_cell_other)
  then show ?thesis using False by (auto simp: cell_of_def)
qed

lemma place_mines_excluding_frame:
  assumes "place_mines_excluding ms b x y = Inr b'"
  shows "frame (b\<lparr>mines_placed := True\<rparr>) b' \<and> revealed_count b' = revealed_count b"
proof -
  from assms obtain g1 b2 where g1: "mark_mines (grid b) ms = Inr g1"
    and b2: "compute_adj (b\<lparr>grid := g1\<rparr>) (all_coords b) = Inr b2"
    and b': "b' = b2\<lparr>mines_placed := True\<rparr>"
    by (auto simp: place_mines_excluding_def split: if_splits sum.splits)
  from mark_mines_shape[OF g1] compute_adj_frame[OF b2] b' show ?thesis
    by (simp add: frame_def)
qed

definition reveal_placed :: "board \<Rightarrow> nat \<times> nat \<Rightarrow> int \<Rightarrow> int \<Rightarrow> error + (board \<times> bool \<times> bool)" where
  "reveal_placed b1 p x y =
     (let b3 = b1\<lparr>grid := put_cell (grid b1) p ((cell_at (grid b1) p)\<lparr>revealed := True\<rparr>),
                  revealed_count := revealed_count b1 + 1\<rparr>
      in if mine (cell_at (grid b1) p) then Inr (b3, True, True)
         else if adj (cell_at (grid b1) p) = 0
           then (case flood_loop b3 [(x, y)] {(x, y)} of
                   Inl e \<Rightarrow> Inl e
                 | Inr b4 \<Rightarrow> Inr (b4, True, False))
           else Inr (b3, True, False))"

lemma reveal_unfold:
  "reveal ms b x y =
     (if \<not> in_bounds b x y then Inr (b, False, False)
      else (case locate (grid b) x y of
              None \<Rightarrow> Inl IndexError
            | Some p \<Rightarrow>
                if flagged (cell_at (grid b) p) then Inr (b, False, False)
                else if revealed (cell_at (grid b) p) then Inr (b, True, False)
                else (case (if \<not> mines_placed b then place_mines_excluding ms b x y
                            else Inr b) of
                        Inl e \<Rightarrow> Inl e
                      | Inr b1 \<Rightarrow> reveal_placed b1 p x y)))"
  by (auto simp: reveal_def reveal_placed_def Let_def split: option.splits sum.splits)

lemma reveal_placed_frame:
  assumes "reveal_placed b1 p x y = Inr (b', ok, hit)"
  shows "frame b1 b'"
proof -
  let ?b3 = "b1\<lparr>grid := put_cell (grid b1) p ((cell_at (grid b1) p)\<lparr>revealed := True\<rparr>),
                 revealed_count := revealed_count b1 + 1\<rparr>"
  have f3: "frame b1 ?b3" by (simp add: frame_def)
  have "frame ?b3 b'"
  proof (cases "mine (cell_at (grid b1) p) \<or> adj (cell_at (grid b1) p) \<noteq> 0")
    case True
    with assms have "b' = ?b3"
      by (auto simp: reveal_placed_def Let_def split: if_splits)
    then show ?thesis by (simp add: frame_refl)
  next
    case False
    with assms have "flood_loop ?b3 [(x, y)] {(x, y)} = Inr b'"
      by (auto simp: reveal_placed_def Let_def split: if_splits sum.splits)
    then show ?thesis by (rule flood_loop_frame)
  qed
  with f3 show ?thesis by (rule frame_trans)
qed

lemma reveal_cases:
  assumes "reveal ms b x y = Inr (b', ok, hit)"
  shows "b' = b \<or> frame (b\<lparr>mines_placed := True\<rparr>) b'"
proof -
  consider (rej) "b' = b"
    | (go) p b1 where "(if \<not> mines_placed b then place_mines_excluding ms b x y else Inr b) = Inr b1"
        "reveal_placed b1 p x y = Inr (b', ok, hit)"
    using assms unfolding reveal_unfold
    by (auto split: if_splits option.splits sum.splits)
  then show ?thesis
  proof cases
    case rej
    then show ?thesis by simp
  next
    case go
    from go(1) have "frame (b\<lparr>mines_placed := True\<rparr>) b1"
      using place_mines_excluding_frame[of ms b x y b1]
      by (auto simp: frame_def split: if_splits)
    with reveal_placed_frame[OF go(2)] show ?thesis by (auto intro: frame_trans)
  qed
qed

lemma toggle_flag_frame: "toggle_flag b x y = Inr (b', r) \<Longrightarrow> frame b b'"
  by (auto simp: toggle_flag_def frame_def split: if_splits option.splits)

subsection \<open>Reachable boards\<close>

text \<open>
  The boards a caller can reach: a constructed board, and what \<open>toggle_flag\<close> and
  \<open>reveal\<close> make of a reachable board, with any result of \<open>random.sample\<close> when
  the reveal places the mines. On every reachable board the grid is well formed, the
  mine target is in range, and no cell is a mine before the mines are placed.
\<close>

definition no_mines :: "board \<Rightarrow> bool" where
  "no_mines b \<longleftrightarrow> list_all (\<lambda>c. \<not> mine (cell_of b c)) (all_coords b)"

inductive reachable :: "board \<Rightarrow> bool" where
  init: "Board_init wd ht m = Inr b \<Longrightarrow> reachable b"
| flag: "reachable b \<Longrightarrow> toggle_flag b x y = Inr (b', r) \<Longrightarrow> reachable b'"
| reveal: "reachable b \<Longrightarrow> mines_placed b \<or> is_sample (candidates b x y) (mine_target b) ms \<Longrightarrow>
           reveal ms b x y = Inr (b', ok, hit) \<Longrightarrow> reachable b'"

definition board_inv :: "board \<Rightarrow> bool" where
  "board_inv b \<longleftrightarrow>
     wf_board b \<and> 0 < mine_target b \<and> mine_target b \<le> w b * h b - 1 \<and>
     (mines_placed b \<or> no_mines b)"

lemma no_mines_iff: "no_mines b \<longleftrightarrow> (\<forall>x y. in_bounds b x y \<longrightarrow> \<not> mine (cell_of b (x, y)))"
  by (auto simp: no_mines_def list_all_iff set_all_coords)

lemma toggle_flag_cell:
  assumes "wf_board b" "toggle_flag b x y = Inr (b', r)" "in_bounds b x' y'"
  shows "cell_of b' (x', y') =
           (if r \<and> (x', y') = (x, y) then (cell_of b (x, y))\<lparr>flagged := \<not> flagged (cell_of b (x, y))\<rparr>
            else cell_of b (x', y'))"
proof (cases "in_bounds b x y")
  case False
  with assms(2) show ?thesis by (auto simp: toggle_flag_def)
next
  case True
  note loc = locate_in_bounds[OF assms(1) True]
  show ?thesis
  proof (cases "revealed (cell_at (grid b) (nat y, nat x))")
    case True
    with assms(2) loc \<open>in_bounds b x y\<close> show ?thesis by (auto simp: toggle_flag_def)
  next
    case False
    with assms(2) loc True have r: "r"
      and b': "b' = b\<lparr>grid := put_cell (grid b) (nat y, nat x)
                  ((cell_at (grid b) (nat y, nat x))\<lparr>flagged := \<not> flagged (cell_at (grid b) (nat y, nat x))\<rparr>)\<rparr>"
      by (auto simp: toggle_flag_def)
    show ?thesis
      using cell_of_put_cell[OF assms(1) True assms(3)] r
      by (simp add: b' cell_of_def)
  qed
qed

lemma Board_init_inv: "Board_init wd ht m = Inr b \<Longrightarrow> board_inv b"
  by (auto simp: Board_init_def Let_def board_inv_def wf_board_def no_mines_def list_all_iff
      set_all_coords in_bounds_def cell_of_def cell_at_def Cell_def split: if_splits)

lemma toggle_flag_inv:
  assumes "board_inv b" "toggle_flag b x y = Inr (b', r)"
  shows "board_inv b'"
proof -
  from assms(1) have wf: "wf_board b" by (simp add: board_inv_def)
  note f = toggle_flag_frame[OF assms(2)]
  have "no_mines b'" if "no_mines b"
    unfolding no_mines_iff
  proof (intro allI impI)
    fix x' y' assume "in_bounds b' x' y'"
    then have ib: "in_bounds b x' y'" by (simp add: frame_in_bounds[OF f])
    with that have "\<not> mine (cell_of b (x', y'))" by (simp add: no_mines_iff)
    moreover have "\<not> mine (cell_of b (x, y))" if "(x', y') = (x, y)"
      using \<open>\<not> mine (cell_of b (x', y'))\<close> that by simp
    ultimately show "\<not> mine (cell_of b' (x', y'))"
      by (simp add: toggle_flag_cell[OF wf assms(2) ib])
  qed
  with assms(1) f frame_wf[OF f wf] show ?thesis
    by (auto simp: board_inv_def frame_def)
qed

lemma reveal_inv:
  assumes "board_inv b" "reveal ms b x y = Inr (b', ok, hit)"
  shows "board_inv b'"
  using reveal_cases[OF assms(2)]
proof
  assume "b' = b" with assms(1) show ?thesis by simp
next
  assume f: "frame (b\<lparr>mines_placed := True\<rparr>) b'"
  from assms(1) have "wf_board (b\<lparr>mines_placed := True\<rparr>)"
    by (simp add: board_inv_def wf_board_def)
  from frame_wf[OF f this] f assms(1) show ?thesis
    by (simp add: board_inv_def frame_def)
qed

lemma reachable_inv: "reachable b \<Longrightarrow> board_inv b"
  by (induction rule: reachable.induct)
     (auto intro: Board_init_inv toggle_flag_inv reveal_inv)

lemma reveal_out_of_bounds: "\<not> in_bounds b x y \<Longrightarrow> reveal ms b x y = Inr (b, False, False)"
  by (simp add: reveal_unfold)

lemma reveal_flagged:
  "wf_board b \<Longrightarrow> in_bounds b x y \<Longrightarrow> flagged (cell_of b (x, y)) \<Longrightarrow>
     reveal ms b x y = Inr (b, False, False)"
  by (simp add: reveal_unfold locate_in_bounds cell_of_def)

lemma reveal_revealed:
  "wf_board b \<Longrightarrow> in_bounds b x y \<Longrightarrow> \<not> flagged (cell_of b (x, y)) \<Longrightarrow>
     revealed (cell_of b (x, y)) \<Longrightarrow> reveal ms b x y = Inr (b, True, False)"
  by (simp add: reveal_unfold locate_in_bounds cell_of_def)

lemma toggle_flag_out_of_bounds: "\<not> in_bounds b x y \<Longrightarrow> toggle_flag b x y = Inr (b, False)"
  by (simp add: toggle_flag_def)

lemma toggle_flag_revealed:
  "wf_board b \<Longrightarrow> in_bounds b x y \<Longrightarrow> revealed (cell_of b (x, y)) \<Longrightarrow>
     toggle_flag b x y = Inr (b, False)"
  by (simp add: toggle_flag_def locate_in_bounds cell_of_def)


subsection \<open>Example boards\<close>

text \<open>
  A 3 by 3 board with one mine: fresh, with a flag on \<open>(2, 2)\<close>, and after the first
  reveal at \<open>(0, 0)\<close> with the mine sampled at \<open>(2, 2)\<close>.
\<close>

definition ex_fresh :: board where
  "ex_fresh = \<lparr>w = 3, h = 3, mine_target = 1, grid = replicate 3 (replicate 3 Cell),
               mines_placed = False, revealed_count = 0\<rparr>"

definition ex_flagged :: board where
  "ex_flagged = ex_fresh\<lparr>grid :=
     [[Cell, Cell, Cell], [Cell, Cell, Cell], [Cell, Cell, Cell\<lparr>flagged := True\<rparr>]]\<rparr>"

definition ex_open :: board where
  "ex_open = \<lparr>w = 3, h = 3, mine_target = 1,
     grid = [[Cell\<lparr>revealed := True\<rparr>, Cell\<lparr>revealed := True\<rparr>, Cell\<lparr>revealed := True\<rparr>],
             [Cell\<lparr>revealed := True\<rparr>, Cell\<lparr>revealed := True, adj := 1\<rparr>,
              Cell\<lparr>revealed := True, adj := 1\<rparr>],
             [Cell\<lparr>revealed := True\<rparr>, Cell\<lparr>revealed := True, adj := 1\<rparr>,
              Cell\<lparr>mine := True, flagged := True\<rparr>]],
     mines_placed = True, revealed_count = 8\<rparr>"

lemma ex_fresh_init: "Board_init 3 3 1 = Inr ex_fresh"
  by (simp add: Board_init_def ex_fresh_def)

lemma ex_flagged_step: "toggle_flag ex_fresh 2 2 = Inr (ex_flagged, True)"
  by code_simp

lemma ex_sample: "is_sample (candidates ex_flagged 0 0) (mine_target ex_flagged) [(2, 2)]"
  by code_simp

lemma ex_open_step: "reveal [(2, 2)] ex_flagged 0 0 = Inr (ex_open, True, False)"
  by code_simp

lemma ex_open_reachable: "reachable ex_open"
  by (rule reachable.reveal[OF reachable.flag[OF reachable.init[OF ex_fresh_init] ex_flagged_step]
        disjI2[OF ex_sample] ex_open_step])

text \<open>
  A 2 by 2 board with two mines: fresh, after the first reveal at \<open>(0, 0)\<close> with the
  mines sampled at \<open>(1, 0)\<close> and \<open>(0, 1)\<close>, and after the reveal of the mine at
  \<open>(1, 0)\<close>.
\<close>

definition ex2_fresh :: board where
  "ex2_fresh = \<lparr>w = 2, h = 2, mine_target = 2, grid = replicate 2 (replicate 2 Cell),
                mines_placed = False, revealed_count = 0\<rparr>"

definition ex2_open :: board where
  "ex2_open = \<lparr>w = 2, h = 2, mine_target = 2,
     grid = [[Cell\<lparr>revealed := True, adj := 2\<rparr>, Cell\<lparr>mine := True\<rparr>],
             [Cell\<lparr>mine := True\<rparr>, Cell\<lparr>adj := 2\<rparr>]],
     mines_placed = True, revealed_count = 1\<rparr>"

definition ex2_hit :: board where
  "ex2_hit = \<lparr>w = 2, h = 2, mine_target = 2,
     grid = [[Cell\<lparr>revealed := True, adj := 2\<rparr>, Cell\<lparr>mine := True, revealed := True\<rparr>],
             [Cell\<lparr>mine := True\<rparr>, Cell\<lparr>adj := 2\<rparr>]],
     mines_placed = True, revealed_count = 2\<rparr>"

lemma ex2_fresh_init: "Board_init 2 2 2 = Inr ex2_fresh"
  by (simp add: Board_init_def ex2_fresh_def)

lemma ex2_sample: "is_sample (candidates ex2_fresh 0 0) (mine_target ex2_fresh) [(1, 0), (0, 1)]"
  by code_simp

lemma ex2_open_step: "reveal [(1, 0), (0, 1)] ex2_fresh 0 0 = Inr (ex2_open, True, False)"
  by code_simp

lemma ex2_open_reachable: "reachable ex2_open"
  by (rule reachable.reveal[OF reachable.init[OF ex2_fresh_init] disjI2[OF ex2_sample] ex2_open_step])

lemma reachable_mine_placed:
  assumes "reachable b" "in_bounds b x y" "mine (cell_of b (x, y))"
  shows "mines_placed b"
  using reachable_inv[OF assms(1)] assms(2,3) by (auto simp: board_inv_def no_mines_iff)

subsection \<open>Mine placement\<close>

text \<open>
  \<open>mined_count b c\<close> counts the neighbours of \<open>c\<close> that are mines, \<open>mine_count b\<close> the
  cells of the board that are mines.
\<close>

definition mined_count :: "board \<Rightarrow> int \<times> int \<Rightarrow> int" where
  "mined_count b c = int (length (filter (\<lambda>n. mine (cell_of b n)) (neighbors b (fst c) (snd c))))"

definition mine_count :: "board \<Rightarrow> int" where
  "mine_count b = int (length (filter (\<lambda>c. mine (cell_of b c)) (all_coords b)))"

lemma cell_of_put:
  assumes "wf_board b" "in_bounds b x y" "in_bounds b x' y'"
  shows "cell_of (b\<lparr>grid := put_cell (grid b) (nat y, nat x) c\<rparr>) (x', y') =
           (if (x', y') = (x, y) then c else cell_of b (x', y'))"
  using cell_of_put_cell[OF assms] by (simp add: cell_of_def)

lemma wf_board_put: "wf_board b \<Longrightarrow> wf_board (b\<lparr>grid := put_cell (grid b) p c\<rparr>)"
  by (simp add: wf_board_def)

lemma in_bounds_put [simp]: "in_bounds (b\<lparr>grid := g\<rparr>) x y = in_bounds b x y"
  by (simp add: in_bounds_def)

lemma mark_mines_spec:
  assumes "wf_board b" "\<forall>c \<in> set ms. in_bounds b (fst c) (snd c)"
  shows "\<exists>g'. mark_mines (grid b) ms = Inr g' \<and> map length g' = map length (grid b) \<and>
           (\<forall>x y. in_bounds b x y \<longrightarrow>
              cell_of (b\<lparr>grid := g'\<rparr>) (x, y) =
                (cell_of b (x, y))\<lparr>mine := mine (cell_of b (x, y)) \<or> (x, y) \<in> set ms\<rparr>)"
  using assms
proof (induction ms arbitrary: b)
  case Nil
  then show ?case by (simp add: cell_of_def)
next
  case (Cons m ms)
  obtain x0 y0 where m: "m = (x0, y0)" by (cases m)
  from Cons.prems have ib: "in_bounds b x0 y0" by (simp add: m)
  let ?p = "(nat y0, nat x0)"
  let ?b1 = "b\<lparr>grid := put_cell (grid b) ?p ((cell_at (grid b) ?p)\<lparr>mine := True\<rparr>)\<rparr>"
  have wf1: "wf_board ?b1" using Cons.prems(1) by (rule wf_board_put)
  have "\<forall>c \<in> set ms. in_bounds ?b1 (fst c) (snd c)" using Cons.prems(2) by simp
  from Cons.IH[OF wf1 this] obtain g' where
    g': "mark_mines (grid ?b1) ms = Inr g'" "map length g' = map length (grid ?b1)"
    and cells: "\<And>x y. in_bounds b x y \<Longrightarrow>
        cell_of (?b1\<lparr>grid := g'\<rparr>) (x, y) =
          (cell_of ?b1 (x, y))\<lparr>mine := mine (cell_of ?b1 (x, y)) \<or> (x, y) \<in> set ms\<rparr>"
    by auto
  have "mark_mines (grid b) (m # ms) = Inr g'"
    using g'(1) by (simp add: m locate_in_bounds[OF Cons.prems(1) ib])
  moreover have "map length g' = map length (grid b)" using g'(2) by simp
  moreover have "cell_of (b\<lparr>grid := g'\<rparr>) (x, y) =
      (cell_of b (x, y))\<lparr>mine := mine (cell_of b (x, y)) \<or> (x, y) \<in> set (m # ms)\<rparr>"
    if "in_bounds b x y" for x y
  proof -
    have "cell_of (b\<lparr>grid := g'\<rparr>) (x, y) = cell_of (?b1\<lparr>grid := g'\<rparr>) (x, y)"
      by (simp add: cell_of_def)
    also have "\<dots> = (cell_of ?b1 (x, y))\<lparr>mine := mine (cell_of ?b1 (x, y)) \<or> (x, y) \<in> set ms\<rparr>"
      by (rule cells[OF that])
    finally show ?thesis
      using cell_of_put[OF Cons.prems(1) ib that, of "(cell_at (grid b) ?p)\<lparr>mine := True\<rparr>"]
      by (auto simp: m cell_of_def)
  qed
  ultimately show ?case by blast
qed

lemma count_mined_spec:
  assumes "wf_board b" "\<forall>c \<in> set ns. in_bounds b (fst c) (snd c)"
  shows "count_mined (grid b) ns = Inr (int (length (filter (\<lambda>n. mine (cell_of b n)) ns)))"
  using assms(2)
proof (induction ns)
  case Nil
  then show ?case by simp
next
  case (Cons n ns)
  obtain nx ny where n: "n = (nx, ny)" by (cases n)
  from Cons.prems have ib: "in_bounds b nx ny" by (simp add: n)
  from Cons show ?case
    by (simp add: n locate_in_bounds[OF assms(1) ib] cell_of_def)
qed

lemma mined_count_cong:
  assumes "w b' = w b" "h b' = h b"
    and "\<And>x y. in_bounds b x y \<Longrightarrow> mine (cell_of b' (x, y)) = mine (cell_of b (x, y))"
  shows "mined_count b' c = mined_count b c"
proof -
  have nb: "neighbors b' (fst c) (snd c) = neighbors b (fst c) (snd c)"
    using assms(1,2) by (simp add: neighbors_filter in_bounds_def)
  have "filter (\<lambda>n. mine (cell_of b' n)) (neighbors b (fst c) (snd c)) =
        filter (\<lambda>n. mine (cell_of b n)) (neighbors b (fst c) (snd c))"
  proof (rule filter_cong[OF refl])
    fix n assume "n \<in> set (neighbors b (fst c) (snd c))"
    then have "in_bounds b (fst n) (snd n)" by (rule neighbors_in_bounds)
    from assms(3)[OF this] show "mine (cell_of b' n) = mine (cell_of b n)" by simp
  qed
  then show ?thesis by (simp add: mined_count_def nb)
qed

lemma compute_adj_spec:
  assumes "wf_board b" "\<forall>c \<in> set cs. in_bounds b (fst c) (snd c)"
  shows "\<exists>b'. compute_adj b cs = Inr b' \<and>
           (\<forall>x y. in_bounds b x y \<longrightarrow>
              cell_of b' (x, y) =
                (if (x, y) \<in> set cs \<and> \<not> mine (cell_of b (x, y))
                 then (cell_of b (x, y))\<lparr>adj := mined_count b (x, y)\<rparr>
                 else cell_of b (x, y)))"
  using assms
proof (induction cs arbitrary: b)
  case Nil
  then show ?case by simp
next
  case (Cons c0 cs)
  obtain x0 y0 where c0: "c0 = (x0, y0)" by (cases c0)
  from Cons.prems have ib: "in_bounds b x0 y0" and rest: "\<forall>c \<in> set cs. in_bounds b (fst c) (snd c)"
    by (simp_all add: c0)
  let ?p = "(nat y0, nat x0)"
  note loc = locate_in_bounds[OF Cons.prems(1) ib]
  show ?case
  proof (cases "mine (cell_of b (x0, y0))")
    case True
    from Cons.IH[OF Cons.prems(1) rest] obtain b' where
      b': "compute_adj b cs = Inr b'"
      and cells: "\<And>x y. in_bounds b x y \<Longrightarrow> cell_of b' (x, y) =
                (if (x, y) \<in> set cs \<and> \<not> mine (cell_of b (x, y))
                 then (cell_of b (x, y))\<lparr>adj := mined_count b (x, y)\<rparr>
                 else cell_of b (x, y))"
      by auto
    have "compute_adj b (c0 # cs) = Inr b'"
      using True b' by (simp add: c0 loc cell_of_def)
    moreover have "cell_of b' (x, y) =
                (if (x, y) \<in> set (c0 # cs) \<and> \<not> mine (cell_of b (x, y))
                 then (cell_of b (x, y))\<lparr>adj := mined_count b (x, y)\<rparr>
                 else cell_of b (x, y))" if "in_bounds b x y" for x y
      using cells[OF that] True by (auto simp: c0)
    ultimately show ?thesis by blast
  next
    case False
    let ?k = "mined_count b (x0, y0)"
    let ?b1 = "b\<lparr>grid := put_cell (grid b) ?p ((cell_at (grid b) ?p)\<lparr>adj := ?k\<rparr>)\<rparr>"
    have cm: "count_mined (grid b) (neighbors b x0 y0) = Inr ?k"
      unfolding mined_count_def fst_conv snd_conv
      by (rule count_mined_spec[OF Cons.prems(1)]) (simp add: neighbors_in_bounds)
    have wf1: "wf_board ?b1" using Cons.prems(1) by (rule wf_board_put)
    have c1: "cell_of ?b1 (x, y) =
        (if (x, y) = (x0, y0) then (cell_of b (x0, y0))\<lparr>adj := ?k\<rparr> else cell_of b (x, y))"
      if "in_bounds b x y" for x y
      using cell_of_put[OF Cons.prems(1) ib that] by (simp add: cell_of_def)
    have m1: "mine (cell_of ?b1 (x, y)) = mine (cell_of b (x, y))" if "in_bounds b x y" for x y
      using c1[OF that] by auto
    have k1: "mined_count ?b1 c = mined_count b c" for c
      by (rule mined_count_cong) (simp_all add: m1)
    have "\<forall>c \<in> set cs. in_bounds ?b1 (fst c) (snd c)" using rest by simp
    from Cons.IH[OF wf1 this] obtain b' where
      b': "compute_adj ?b1 cs = Inr b'"
      and cells: "\<And>x y. in_bounds b x y \<Longrightarrow> cell_of b' (x, y) =
                (if (x, y) \<in> set cs \<and> \<not> mine (cell_of ?b1 (x, y))
                 then (cell_of ?b1 (x, y))\<lparr>adj := mined_count ?b1 (x, y)\<rparr>
                 else cell_of ?b1 (x, y))"
      by auto
    have "compute_adj b (c0 # cs) = Inr b'"
      using False b' cm by (simp add: c0 loc cell_of_def)
    moreover have "cell_of b' (x, y) =
                (if (x, y) \<in> set (c0 # cs) \<and> \<not> mine (cell_of b (x, y))
                 then (cell_of b (x, y))\<lparr>adj := mined_count b (x, y)\<rparr>
                 else cell_of b (x, y))" if "in_bounds b x y" for x y
      using cells[OF that] False m1[OF that] c1[OF that] by (auto simp: c0 k1)
    ultimately show ?thesis by blast
  qed
qed

lemma candidates_subset:
  "set (candidates b sx sy) \<subseteq> set (all_coords b) - {(sx, sy)}"
  by (auto simp: candidates_def Let_def)

lemma distinct_candidates: "distinct (candidates b sx sy)"
  by (simp add: candidates_def Let_def distinct_all_coords)

lemma length_neighbors_le: "length (neighbors b x y) \<le> 8"
proof -
  have "length (neighbors b x y) \<le>
      length (map (\<lambda>d. (x + fst d, y + snd d))
          [(-1, -1), (0, -1), (1, -1), (-1, 0), (1, 0), (-1, 1), (0, 1), (1::int, 1::int)])"
    unfolding neighbors_filter by (rule length_filter_le)
  then show ?thesis by simp
qed

lemma length_filter_notin:
  assumes "distinct xs"
  shows "length xs \<le> length (filter (\<lambda>c. c \<notin> set es) xs) + length es"
proof -
  have "length (filter (\<lambda>c. c \<in> set es) xs) = card ({c. c \<in> set es} \<inter> set xs)"
    using assms by (rule distinct_length_filter)
  also have "\<dots> \<le> card (set es)" by (rule card_mono) auto
  also have "\<dots> \<le> length es" by (rule card_length)
  finally have "length (filter (\<lambda>c. c \<in> set es) xs) \<le> length es" .
  moreover have "length (filter (\<lambda>c. c \<in> set es) xs) + length (filter (\<lambda>c. \<not> c \<in> set es) xs) = length xs"
    by (rule sum_length_filter_compl)
  ultimately show ?thesis by simp
qed

lemma length_filter_neq:
  assumes "distinct xs" "s \<in> set xs"
  shows "Suc (length (filter (\<lambda>c. c \<noteq> s) xs)) = length xs"
proof -
  have "length (filter (\<lambda>c. c \<noteq> s) xs) = card ({c. c \<noteq> s} \<inter> set xs)"
    using assms(1) by (rule distinct_length_filter)
  also have "{c. c \<noteq> s} \<inter> set xs = set xs - {s}" by auto
  also have "card (set xs - {s}) = card (set xs) - 1" using assms(2) by simp
  finally show ?thesis
    using assms distinct_card[OF assms(1)] by (cases xs) auto
qed

lemma candidates_enough:
  assumes "0 < w b" "0 < h b" "in_bounds b sx sy" "mine_target b \<le> w b * h b - 1"
  shows "mine_target b \<le> int (length (candidates b sx sy))"
proof -
  let ?c = "filter (\<lambda>c. c \<notin> set ((sx, sy) # neighbors b sx sy)) (all_coords b)"
  show ?thesis
  proof (cases "int (length ?c) < mine_target b")
    case True
    then have c: "candidates b sx sy = filter (\<lambda>c. c \<noteq> (sx, sy)) (all_coords b)"
      by (simp add: candidates_def Let_def)
    have "(sx, sy) \<in> set (all_coords b)" using assms(3) by (simp add: set_all_coords)
    from length_filter_neq[OF distinct_all_coords this]
    have "int (length (candidates b sx sy)) = w b * h b - 1"
      using length_all_coords[of b] assms(1,2) by (simp add: c)
    with assms(4) show ?thesis by simp
  next
    case False
    then show ?thesis by (simp add: candidates_def Let_def)
  qed
qed

lemma candidates_safe_zone:
  assumes "0 < w b" "0 < h b" "mine_target b \<le> w b * h b - 9"
  shows "set (candidates b sx sy) \<inter> set ((sx, sy) # neighbors b sx sy) = {}"
proof -
  let ?es = "(sx, sy) # neighbors b sx sy"
  let ?c = "filter (\<lambda>c. c \<notin> set ?es) (all_coords b)"
  have "length ?es \<le> 9" using length_neighbors_le[of b sx sy] by simp
  with length_filter_notin[OF distinct_all_coords, of b ?es]
  have "length (all_coords b) \<le> length ?c + 9" by linarith
  then have "w b * h b \<le> int (length ?c) + 9"
    using length_all_coords[of b] assms(1,2) by simp
  with assms(3) have "\<not> int (length ?c) < mine_target b" by simp
  then have "candidates b sx sy = ?c" by (simp add: candidates_def Let_def)
  then show ?thesis by auto
qed

lemma place_mines_excluding_spec:
  assumes wf: "wf_board b" and nm: "no_mines b" and ib: "in_bounds b sx sy"
    and mt: "0 \<le> mine_target b" "mine_target b \<le> w b * h b - 1"
    and smp: "is_sample (candidates b sx sy) (mine_target b) ms"
  shows "\<exists>b'. place_mines_excluding ms b sx sy = Inr b' \<and>
           frame (b\<lparr>mines_placed := True\<rparr>) b' \<and> revealed_count b' = revealed_count b \<and>
           (\<forall>x y. in_bounds b x y \<longrightarrow>
              mine (cell_of b' (x, y)) = ((x, y) \<in> set ms) \<and>
              revealed (cell_of b' (x, y)) = revealed (cell_of b (x, y)) \<and>
              flagged (cell_of b' (x, y)) = flagged (cell_of b (x, y)) \<and>
              adj (cell_of b' (x, y)) =
                (if (x, y) \<in> set ms then adj (cell_of b (x, y)) else mined_count b' (x, y)))"
proof -
  from wf have pos: "0 < w b" "0 < h b" by (simp_all add: wf_board_def)
  have enough: "\<not> (mine_target b < 0 \<or> int (length (candidates b sx sy)) < mine_target b)"
    using candidates_enough[OF pos ib mt(2)] mt(1) by simp
  have ms_in: "\<forall>c \<in> set ms. in_bounds b (fst c) (snd c)"
    using smp candidates_subset[of b sx sy] by (auto simp: is_sample_def set_all_coords)
  from mark_mines_spec[OF wf ms_in] obtain g1 where
    g1: "mark_mines (grid b) ms = Inr g1" "map length g1 = map length (grid b)"
    and c1: "\<And>x y. in_bounds b x y \<Longrightarrow> cell_of (b\<lparr>grid := g1\<rparr>) (x, y) =
                (cell_of b (x, y))\<lparr>mine := mine (cell_of b (x, y)) \<or> (x, y) \<in> set ms\<rparr>"
    by auto
  let ?b1 = "b\<lparr>grid := g1\<rparr>"
  have wf1: "wf_board ?b1" using wf g1(2) by (simp add: wf_board_def)
  have "\<forall>c \<in> set (all_coords b). in_bounds ?b1 (fst c) (snd c)"
    by (auto simp: set_all_coords)
  with compute_adj_spec[OF wf1, of "all_coords b"] obtain b2 where
    b2: "compute_adj ?b1 (all_coords b) = Inr b2"
    and c2: "\<And>x y. in_bounds b x y \<Longrightarrow> cell_of b2 (x, y) =
                (if (x, y) \<in> set (all_coords b) \<and> \<not> mine (cell_of ?b1 (x, y))
                 then (cell_of ?b1 (x, y))\<lparr>adj := mined_count ?b1 (x, y)\<rparr>
                 else cell_of ?b1 (x, y))"
    by auto
  let ?b' = "b2\<lparr>mines_placed := True\<rparr>"
  have res: "place_mines_excluding ms b sx sy = Inr ?b'"
    using enough g1(1) b2 by (simp add: place_mines_excluding_def)
  note fr = place_mines_excluding_frame[OF res]
  have m0: "\<not> mine (cell_of b (x, y))" if "in_bounds b x y" for x y
    using nm that by (simp add: no_mines_iff)
  have cb': "cell_of ?b' c = cell_of b2 c" for c by (simp add: cell_of_def)
  have mine': "mine (cell_of ?b' (x, y)) = ((x, y) \<in> set ms)" if "in_bounds b x y" for x y
    using c2[OF that] c1[OF that] m0[OF that] by (auto simp: cb')
  have mine1: "mine (cell_of ?b' (x, y)) = mine (cell_of ?b1 (x, y))" if "in_bounds b x y" for x y
    using c2[OF that] by (auto simp: cb')
  have k: "mined_count ?b' c = mined_count ?b1 c" for c
    using fr by (intro mined_count_cong) (simp_all add: frame_def mine1)
  have "mine (cell_of ?b' (x, y)) = ((x, y) \<in> set ms) \<and>
        revealed (cell_of ?b' (x, y)) = revealed (cell_of b (x, y)) \<and>
        flagged (cell_of ?b' (x, y)) = flagged (cell_of b (x, y)) \<and>
        adj (cell_of ?b' (x, y)) =
          (if (x, y) \<in> set ms then adj (cell_of b (x, y)) else mined_count ?b' (x, y))"
    if "in_bounds b x y" for x y
    using c2[OF that] c1[OF that] m0[OF that] that
    by (auto simp: cb' k set_all_coords)
  with res fr show ?thesis by blast
qed

lemma mined_count_card:
  "mined_count b (x, y) =
     int (card {(nx, ny). in_bounds b nx ny \<and> \<bar>nx - x\<bar> \<le> 1 \<and> \<bar>ny - y\<bar> \<le> 1 \<and>
                 (nx, ny) \<noteq> (x, y) \<and> mine (cell_of b (nx, ny))})"
proof -
  have "length (filter (\<lambda>n. mine (cell_of b n)) (neighbors b x y)) =
        card ({n. mine (cell_of b n)} \<inter> set (neighbors b x y))"
    using distinct_neighbors by (rule distinct_length_filter)
  also have "{n. mine (cell_of b n)} \<inter> set (neighbors b x y) =
      {(nx, ny). in_bounds b nx ny \<and> \<bar>nx - x\<bar> \<le> 1 \<and> \<bar>ny - y\<bar> \<le> 1 \<and>
                 (nx, ny) \<noteq> (x, y) \<and> mine (cell_of b (nx, ny))}"
    using in_neighbors[of _ _ b x y] by (auto simp del: abs_le_iff)
  finally show ?thesis by (simp add: mined_count_def)
qed

lemma is_sample_take:
  assumes "0 \<le> k" "k \<le> int (length pop)" "distinct pop"
  shows "is_sample pop k (take (nat k) pop)"
  using assms by (auto simp: is_sample_def dest: in_set_takeD)

lemma mine_count_sample:
  assumes "distinct ms" "set ms \<subseteq> set (all_coords b)"
    and "\<And>x y. in_bounds b x y \<Longrightarrow> mine (cell_of b (x, y)) = ((x, y) \<in> set ms)"
  shows "mine_count b = int (length ms)"
proof -
  have "filter (\<lambda>c. mine (cell_of b c)) (all_coords b) = filter (\<lambda>c. c \<in> set ms) (all_coords b)"
    by (rule filter_cong[OF refl]) (auto simp: set_all_coords assms(3))
  moreover have "length (filter (\<lambda>c. c \<in> set ms) (all_coords b)) =
      card ({c. c \<in> set ms} \<inter> set (all_coords b))"
    using distinct_all_coords by (rule distinct_length_filter)
  moreover have "{c. c \<in> set ms} \<inter> set (all_coords b) = set ms" using assms(2) by auto
  ultimately show ?thesis using distinct_card[OF assms(1)] by (simp add: mine_count_def)
qed


lemma ex_flagged_reachable: "reachable ex_flagged"
  by (rule reachable.flag[OF reachable.init[OF ex_fresh_init] ex_flagged_step])

text \<open>
  A 4 by 3 board with two mines, where the safe zone of \<open>(1, 1)\<close> fits, and the boards
  after placement.
\<close>

definition ex4_fresh :: board where
  "ex4_fresh = \<lparr>w = 4, h = 3, mine_target = 2, grid = replicate 3 (replicate 4 Cell),
                mines_placed = False, revealed_count = 0\<rparr>"

lemma ex4_fresh_reachable: "reachable ex4_fresh"
  by (rule reachable.init[of 4 3 2]) (simp add: Board_init_def ex4_fresh_def)

lemma ex2_fresh_reachable: "reachable ex2_fresh"
  by (rule reachable.init[OF ex2_fresh_init])

definition ex_placed :: board where
  "ex_placed = \<lparr>w = 3, h = 3, mine_target = 1,
     grid = [[Cell, Cell, Cell],
             [Cell, Cell\<lparr>adj := 1\<rparr>, Cell\<lparr>adj := 1\<rparr>],
             [Cell, Cell\<lparr>adj := 1\<rparr>, Cell\<lparr>mine := True, flagged := True\<rparr>]],
     mines_placed = True, revealed_count = 0\<rparr>"

definition ex4_placed :: board where
  "ex4_placed = \<lparr>w = 4, h = 3, mine_target = 2,
     grid = [[Cell, Cell, Cell\<lparr>adj := 1\<rparr>, Cell\<lparr>mine := True\<rparr>],
             [Cell, Cell, Cell\<lparr>adj := 2\<rparr>, Cell\<lparr>adj := 2\<rparr>],
             [Cell, Cell, Cell\<lparr>adj := 1\<rparr>, Cell\<lparr>mine := True\<rparr>]],
     mines_placed = True, revealed_count = 0\<rparr>"

definition ex2_placed :: board where
  "ex2_placed = \<lparr>w = 2, h = 2, mine_target = 2,
     grid = [[Cell\<lparr>adj := 2\<rparr>, Cell\<lparr>mine := True\<rparr>],
             [Cell\<lparr>mine := True\<rparr>, Cell\<lparr>adj := 2\<rparr>]],
     mines_placed = True, revealed_count = 0\<rparr>"

lemma ex_placed_step: "place_mines_excluding [(2, 2)] ex_flagged 0 0 = Inr ex_placed"
  by code_simp

lemma ex4_sample: "is_sample (candidates ex4_fresh 1 1) (mine_target ex4_fresh) [(3, 0), (3, 2)]"
  by code_simp

lemma ex4_placed_step: "place_mines_excluding [(3, 0), (3, 2)] ex4_fresh 1 1 = Inr ex4_placed"
  by code_simp

lemma ex2_placed_step: "place_mines_excluding [(1, 0), (0, 1)] ex2_fresh 0 0 = Inr ex2_placed"
  by code_simp

subsection \<open>The flood fill\<close>

text \<open>
  \<open>flood_fuel n\<close> is the \<open>while\<close> loop cut off after \<open>n\<close> passes: \<open>None\<close> when the
  stack is not empty by then. Every pass pops one cell, so the passes of a run are as
  many as the cells ever pushed.
\<close>

fun flood_fuel ::
  "nat \<Rightarrow> board \<Rightarrow> (int \<times> int) list \<Rightarrow> (int \<times> int) set \<Rightarrow> (error + board) option" where
  "flood_fuel 0 b stack visited = (if stack = [] then Some (Inr b) else None)"
| "flood_fuel (Suc n) b stack visited =
     (if stack = [] then Some (Inr b)
      else (case last stack of (cx, cy) \<Rightarrow>
              (case flood_neighbors b (butlast stack) visited (neighbors b cx cy) of
                 Inl e \<Rightarrow> Some (Inl e)
               | Inr (b', stack', visited') \<Rightarrow> flood_fuel n b' stack' visited')))"

lemma flood_fuel_Nil: "flood_fuel n b [] v = Some (Inr b)"
  by (cases n) simp_all

lemma flood_fuel_snoc_0: "flood_fuel 0 b (st @ [c]) v = None"
  by simp

lemma flood_fuel_snoc_Suc:
  "flood_fuel (Suc n) b (st @ [c]) v =
     (case flood_neighbors b st v (neighbors b (fst c) (snd c)) of
        Inl e \<Rightarrow> Some (Inl e)
      | Inr (b', st', v') \<Rightarrow> flood_fuel n b' st' v')"
  by (simp add: case_prod_beta)

declare flood_fuel.simps [simp del]

lemma flood_fuel_sound:
  "flood_fuel n b st v = Some r \<Longrightarrow> flood_loop b st v = r"
proof (induction n arbitrary: b st v)
  case 0
  then show ?case
    by (cases st rule: rev_cases) (simp_all add: flood_loop_Nil flood_fuel_Nil flood_fuel_snoc_0)
next
  case (Suc n)
  show ?case
  proof (cases st rule: rev_cases)
    case Nil
    with Suc.prems show ?thesis by (simp add: flood_loop_Nil flood_fuel_Nil)
  next
    case (snoc st0 c)
    show ?thesis
    proof (cases "flood_neighbors b st0 v (neighbors b (fst c) (snd c))")
      case (Inl e)
      with Suc.prems show ?thesis by (simp add: snoc flood_fuel_snoc_Suc flood_loop_snoc)
    next
      case (Inr t)
      obtain b1 st1 v1 where t: "t = (b1, st1, v1)" by (cases t)
      from Suc.prems have "flood_fuel n b1 st1 v1 = Some r"
        by (simp add: snoc flood_fuel_snoc_Suc Inr t)
      from Suc.IH[OF this] show ?thesis by (simp add: snoc flood_loop_snoc Inr t)
    qed
  qed
qed

lemma flood_fuel_enough:
  "unrevealed (grid b) + length st \<le> n \<Longrightarrow> flood_fuel n b st v = Some (flood_loop b st v)"
proof (induction n arbitrary: b st v)
  case 0
  then show ?case by (simp add: flood_loop_Nil flood_fuel_Nil)
next
  case (Suc n)
  show ?case
  proof (cases st rule: rev_cases)
    case Nil
    then show ?thesis by (simp add: flood_loop_Nil flood_fuel_Nil)
  next
    case (snoc st0 c)
    show ?thesis
    proof (cases "flood_neighbors b st0 v (neighbors b (fst c) (snd c))")
      case (Inl e)
      then show ?thesis by (simp add: snoc flood_fuel_snoc_Suc flood_loop_snoc)
    next
      case (Inr t)
      obtain b1 st1 v1 where t: "t = (b1, st1, v1)" by (cases t)
      from flood_neighbors_measure[OF Inr[unfolded t]] Suc.prems
      have "unrevealed (grid b1) + length st1 \<le> n" by (simp add: snoc)
      from Suc.IH[OF this] show ?thesis
        by (simp add: snoc flood_fuel_snoc_Suc flood_loop_snoc Inr t)
    qed
  qed
qed

lemma unrevealed_le:
  assumes "wf_board b"
  shows "int (unrevealed (grid b)) \<le> w b * h b"
proof -
  have "unrevealed (grid b) \<le> sum_list (map length (grid b))"
    unfolding unrevealed_def by (rule sum_list_mono) simp
  also have "\<dots> = nat (h b) * nat (w b)"
    using assms by (simp add: wf_board_def sum_list_replicate)
  finally have le: "unrevealed (grid b) \<le> nat (h b) * nat (w b)" .
  have "int (nat (h b) * nat (w b)) = w b * h b"
    using assms by (simp add: wf_board_def mult.commute)
  moreover have "int (unrevealed (grid b)) \<le> int (nat (h b) * nat (w b))"
    by (subst of_nat_le_iff) (rule le)
  ultimately show ?thesis by simp
qed

text \<open>A cell the flood fill may reveal: not revealed, not flagged, not a mine.\<close>

definition eligible :: "board \<Rightarrow> int \<times> int \<Rightarrow> bool" where
  "eligible b c \<longleftrightarrow>
     \<not> revealed (cell_of b c) \<and> \<not> flagged (cell_of b c) \<and> \<not> mine (cell_of b c)"

lemma cell_of_grid_count [simp]:
  "cell_of (b\<lparr>grid := g, revealed_count := k\<rparr>) c = cell_of (b\<lparr>grid := g\<rparr>) c"
  by (simp add: cell_of_def)

lemma flood_neighbors_step:
  assumes "wf_board b" "in_bounds b nx ny"
  shows "flood_neighbors b st v ((nx, ny) # ns) =
     (if eligible b (nx, ny)
      then flood_neighbors
             (b\<lparr>grid := put_cell (grid b) (nat ny, nat nx) ((cell_of b (nx, ny))\<lparr>revealed := True\<rparr>),
                revealed_count := revealed_count b + 1\<rparr>)
             (if adj (cell_of b (nx, ny)) = 0 then st @ [(nx, ny)] else st)
             (insert (nx, ny) v) ns
      else flood_neighbors b st v ns)"
  by (auto simp: locate_in_bounds[OF assms] eligible_def cell_of_def Let_def insert_absorb)

lemma flood_neighbors_spec:
  assumes "wf_board b" "\<forall>n \<in> set ns. in_bounds b (fst n) (snd n)"
  shows "\<exists>b' st' v'. flood_neighbors b st v ns = Inr (b', st', v') \<and>
     (\<forall>x y. in_bounds b x y \<longrightarrow>
        cell_of b' (x, y) =
          (if (x, y) \<in> set ns \<and> eligible b (x, y)
           then (cell_of b (x, y))\<lparr>revealed := True\<rparr> else cell_of b (x, y))) \<and>
     set st' = set st \<union> {n \<in> set ns. eligible b n \<and> adj (cell_of b n) = 0} \<and>
     revealed_count b' = revealed_count b + int (card {n \<in> set ns. eligible b n})"
  using assms
proof (induction ns arbitrary: b st v)
  case Nil
  then show ?case by simp
next
  case (Cons n0 ns)
  obtain nx ny where n0: "n0 = (nx, ny)" by (cases n0)
  from Cons.prems have ib: "in_bounds b nx ny"
    and rest: "\<forall>n \<in> set ns. in_bounds b (fst n) (snd n)" by (simp_all add: n0)
  note step = flood_neighbors_step[OF Cons.prems(1) ib]
  show ?case
  proof (cases "eligible b (nx, ny)")
    case False
    from Cons.IH[OF Cons.prems(1) rest, of st v] obtain b' st' v' where
      r: "flood_neighbors b st v ns = Inr (b', st', v')"
      and cells: "\<And>x y. in_bounds b x y \<Longrightarrow> cell_of b' (x, y) =
          (if (x, y) \<in> set ns \<and> eligible b (x, y)
           then (cell_of b (x, y))\<lparr>revealed := True\<rparr> else cell_of b (x, y))"
      and st': "set st' = set st \<union> {n \<in> set ns. eligible b n \<and> adj (cell_of b n) = 0}"
      and cnt: "revealed_count b' = revealed_count b + int (card {n \<in> set ns. eligible b n})"
      by blast
    have e1: "{n \<in> set (n0 # ns). eligible b n} = {n \<in> set ns. eligible b n}"
      using False by (auto simp: n0)
    have e2: "{n \<in> set (n0 # ns). eligible b n \<and> adj (cell_of b n) = 0} =
              {n \<in> set ns. eligible b n \<and> adj (cell_of b n) = 0}"
      using False by (auto simp: n0)
    have "flood_neighbors b st v (n0 # ns) = Inr (b', st', v')"
      unfolding n0 step using r False by simp
    moreover have "cell_of b' (x, y) =
          (if (x, y) \<in> set (n0 # ns) \<and> eligible b (x, y)
           then (cell_of b (x, y))\<lparr>revealed := True\<rparr> else cell_of b (x, y))"
      if "in_bounds b x y" for x y
      using cells[OF that] False by (auto simp: n0)
    ultimately show ?thesis using st' cnt unfolding e1 e2 by blast
  next
    case True
    let ?b1 = "b\<lparr>grid := put_cell (grid b) (nat ny, nat nx) ((cell_of b (nx, ny))\<lparr>revealed := True\<rparr>),
                  revealed_count := revealed_count b + 1\<rparr>"
    let ?st1 = "if adj (cell_of b (nx, ny)) = 0 then st @ [(nx, ny)] else st"
    have wf1: "wf_board ?b1" using Cons.prems(1) by (simp add: wf_board_def)
    have ib1: "in_bounds ?b1 x y = in_bounds b x y" for x y by (simp add: in_bounds_def)
    have c1: "cell_of ?b1 (x, y) =
        (if (x, y) = (nx, ny) then (cell_of b (nx, ny))\<lparr>revealed := True\<rparr> else cell_of b (x, y))"
      if "in_bounds b x y" for x y
      using cell_of_put[OF Cons.prems(1) ib that] by simp
    have el1: "eligible ?b1 (x, y) \<longleftrightarrow> eligible b (x, y) \<and> (x, y) \<noteq> (nx, ny)"
      if "in_bounds b x y" for x y
      using c1[OF that] by (auto simp: eligible_def)
    have adj1: "adj (cell_of ?b1 (x, y)) = adj (cell_of b (x, y))" if "in_bounds b x y" for x y
      using c1[OF that] by auto
    have rest1: "\<forall>n \<in> set ns. in_bounds ?b1 (fst n) (snd n)" using rest by (simp add: ib1)
    from Cons.IH[OF wf1 rest1, of ?st1 "insert (nx, ny) v"] obtain b' st' v' where
      r: "flood_neighbors ?b1 ?st1 (insert (nx, ny) v) ns = Inr (b', st', v')"
      and cells: "\<And>x y. in_bounds b x y \<Longrightarrow> cell_of b' (x, y) =
          (if (x, y) \<in> set ns \<and> eligible ?b1 (x, y)
           then (cell_of ?b1 (x, y))\<lparr>revealed := True\<rparr> else cell_of ?b1 (x, y))"
      and st': "set st' = set ?st1 \<union> {n \<in> set ns. eligible ?b1 n \<and> adj (cell_of ?b1 n) = 0}"
      and cnt: "revealed_count b' = revealed_count ?b1 + int (card {n \<in> set ns. eligible ?b1 n})"
      unfolding ib1 by blast
    have s1: "{n \<in> set ns. eligible ?b1 n} = {n \<in> set ns. eligible b n} - {n0}"
      using rest el1 by (auto simp: n0)
    have s2: "{n \<in> set ns. eligible ?b1 n \<and> adj (cell_of ?b1 n) = 0} =
              {n \<in> set ns. eligible b n \<and> adj (cell_of b n) = 0} - {n0}"
      using rest el1 adj1 by (auto simp: n0)
    have e1: "{n \<in> set (n0 # ns). eligible b n} = insert n0 ({n \<in> set ns. eligible b n} - {n0})"
      using True by (auto simp: n0)
    have ce: "card {n \<in> set (n0 # ns). eligible b n} = Suc (card {n \<in> set ns. eligible ?b1 n})"
      unfolding e1 s1 by (rule card_insert_disjoint) auto
    have rc1: "revealed_count ?b1 = revealed_count b + 1" by simp
    have cnt': "revealed_count b' =
        revealed_count b + int (card {n \<in> set (n0 # ns). eligible b n})"
      unfolding ce cnt rc1 by (simp only: of_nat_Suc)
    have st'': "set st' = set st \<union> {n \<in> set (n0 # ns). eligible b n \<and> adj (cell_of b n) = 0}"
    proof (cases "adj (cell_of b n0) = 0")
      case z: True
      then have "set ?st1 = insert n0 (set st)" by (simp add: n0)
      moreover have "{n \<in> set (n0 # ns). eligible b n \<and> adj (cell_of b n) = 0} =
          insert n0 ({n \<in> set ns. eligible b n \<and> adj (cell_of b n) = 0} - {n0})"
        using True z by (auto simp: n0)
      ultimately show ?thesis unfolding st' s2 by blast
    next
      case nz: False
      then have "set ?st1 = set st" by (simp add: n0)
      moreover have "{n \<in> set (n0 # ns). eligible b n \<and> adj (cell_of b n) = 0} =
          {n \<in> set ns. eligible b n \<and> adj (cell_of b n) = 0} - {n0}"
        using nz by (auto simp: n0)
      ultimately show ?thesis unfolding st' s2 by blast
    qed
    have res: "flood_neighbors b st v (n0 # ns) = Inr (b', st', v')"
      unfolding n0 step using r True by simp
    have cells': "cell_of b' (x, y) =
          (if (x, y) \<in> set (n0 # ns) \<and> eligible b (x, y)
           then (cell_of b (x, y))\<lparr>revealed := True\<rparr> else cell_of b (x, y))"
      if xy: "in_bounds b x y" for x y
    proof (cases "(x, y) = (nx, ny)")
      case eq: True
      have "cell_of b' (x, y) = cell_of ?b1 (x, y)"
        using cells[OF xy] el1[OF xy] eq by simp
      also have "\<dots> = (cell_of b (nx, ny))\<lparr>revealed := True\<rparr>"
        using c1[OF xy] eq by simp
      finally show ?thesis using eq True by (simp add: n0)
    next
      case neq: False
      then have neq': "\<not> (x = nx \<and> y = ny)" by simp
      have a: "cell_of ?b1 (x, y) = cell_of b (x, y)"
        using c1[OF xy] neq' by auto
      have e: "eligible ?b1 (x, y) = eligible b (x, y)"
        using el1[OF xy] neq' by auto
      have "cell_of b' (x, y) =
          (if (x, y) \<in> set ns \<and> eligible b (x, y)
           then (cell_of b (x, y))\<lparr>revealed := True\<rparr> else cell_of b (x, y))"
        using cells[OF xy] unfolding a e .
      then show ?thesis using neq' by (auto simp: n0)
    qed
    show ?thesis
    proof (intro exI conjI allI impI)
      show "flood_neighbors b st v (n0 # ns) = Inr (b', st', v')" by (rule res)
      show "set st' = set st \<union> {n \<in> set (n0 # ns). eligible b n \<and> adj (cell_of b n) = 0}"
        by (rule st'')
      show "revealed_count b' = revealed_count b + int (card {n \<in> set (n0 # ns). eligible b n})"
        by (rule cnt')
    qed (rule cells')
  qed
qed

text \<open>
  The flood-fill region of a set \<open>S\<close> of start cells on board \<open>b\<close>: the cells of \<open>S\<close>,
  and every eligible neighbour of a cell of the region whose \<open>adj\<close> is 0. A cell with
  \<open>adj > 0\<close> belongs to the region when a zero cell of the region is its neighbour, and
  nothing is reached through it.
\<close>

inductive_set flood_from :: "board \<Rightarrow> (int \<times> int) set \<Rightarrow> (int \<times> int) set"
  for b :: board and S :: "(int \<times> int) set" where
  base: "c \<in> S \<Longrightarrow> c \<in> flood_from b S"
| step: "c \<in> flood_from b S \<Longrightarrow> adj (cell_of b c) = 0 \<Longrightarrow>
         n \<in> set (neighbors b (fst c) (snd c)) \<Longrightarrow> eligible b n \<Longrightarrow> n \<in> flood_from b S"

lemma neighbors_inside: "n \<in> set (neighbors b x y) \<Longrightarrow> inside b n"
  by (simp add: inside_def neighbors_in_bounds)

lemma flood_from_cases:
  "x \<in> flood_from b S \<Longrightarrow> x \<in> S \<or> (eligible b x \<and> inside b x)"
  by (induction rule: flood_from.induct) (auto intro: neighbors_inside)

lemma flood_from_inside:
  "x \<in> flood_from b S \<Longrightarrow> \<forall>s \<in> S. inside b s \<Longrightarrow> inside b x"
  using flood_from_cases[of x b S] by auto

lemma flood_from_split:
  assumes dims: "w b1 = w b" "h b1 = h b"
    and adj1: "\<And>x. inside b x \<Longrightarrow> adj (cell_of b1 x) = adj (cell_of b x)"
    and el1: "\<And>x. inside b x \<Longrightarrow> eligible b1 x \<longleftrightarrow> eligible b x \<and> x \<notin> N"
    and N: "N = {n \<in> set (neighbors b (fst c) (snd c)). eligible b n}"
    and c: "adj (cell_of b c) = 0"
    and S: "\<forall>s \<in> S. inside b s"
  shows "flood_from b (insert c S) =
           flood_from b1 (S \<union> {n \<in> N. adj (cell_of b n) = 0}) \<union> N \<union> {c}"
proof -
  let ?S1 = "S \<union> {n \<in> N. adj (cell_of b n) = 0}"
  have nb: "neighbors b1 x y = neighbors b x y" for x y
    using dims by (simp add: neighbors_filter in_bounds_def)
  have N_in: "inside b n" if "n \<in> N" for n
    using that N by (auto intro: neighbors_inside)
  have S1_in: "\<forall>s \<in> ?S1. inside b s" using S N_in by auto
  have N_sub: "n \<in> flood_from b (insert c S)" if "n \<in> N" for n
  proof -
    have "c \<in> flood_from b (insert c S)" by (rule flood_from.base) simp
    then show ?thesis using that c unfolding N by (auto intro: flood_from.step)
  qed
  have in1: "inside b x" if "x \<in> flood_from b1 ?S1" for x
  proof -
    from flood_from_cases[OF that] show ?thesis
    proof
      assume "x \<in> ?S1" then show ?thesis using S1_in by blast
    next
      assume "eligible b1 x \<and> inside b1 x"
      then show ?thesis using dims by (simp add: inside_def in_bounds_def)
    qed
  qed
  have sub1: "x \<in> flood_from b (insert c S)" if "x \<in> flood_from b1 ?S1" for x
    using that
  proof (induction rule: flood_from.induct)
    case (base x)
    then have "x \<in> S \<or> x \<in> N" by auto
    then show ?case
    proof
      assume "x \<in> S" then show ?thesis by (auto intro: flood_from.base)
    next
      assume "x \<in> N" then show ?thesis by (rule N_sub)
    qed
  next
    case (step y n)
    have y: "inside b y" by (rule in1[OF step.hyps(1)])
    have n: "inside b n" using step.hyps(3) unfolding nb by (rule neighbors_inside)
    show ?case
    proof (rule flood_from.step[OF step.IH])
      show "adj (cell_of b y) = 0" using step.hyps(2) adj1[OF y] by simp
      show "n \<in> set (neighbors b (fst y) (snd y))" using step.hyps(3) by (simp add: nb)
      show "eligible b n" using step.hyps(4) el1[OF n] by simp
    qed
  qed
  have sub2: "x \<in> flood_from b1 ?S1 \<or> x \<in> N \<or> x = c" if "x \<in> flood_from b (insert c S)" for x
    using that
  proof (induction rule: flood_from.induct)
    case (base x)
    then show ?case by (auto intro: flood_from.base)
  next
    case (step y n)
    have n: "inside b n" using step.hyps(3) by (rule neighbors_inside)
    have y1: "n \<in> flood_from b1 ?S1 \<or> n \<in> N" if y: "y \<in> flood_from b1 ?S1"
    proof (cases "n \<in> N")
      case True
      then show ?thesis by simp
    next
      case False
      have "n \<in> flood_from b1 ?S1"
      proof (rule flood_from.step[OF y])
        show "adj (cell_of b1 y) = 0" using step.hyps(2) adj1[OF in1[OF y]] by simp
        show "n \<in> set (neighbors b1 (fst y) (snd y))" using step.hyps(3) by (simp add: nb)
        show "eligible b1 n" using step.hyps(4) False el1[OF n] by simp
      qed
      then show ?thesis by simp
    qed
    from step.IH show ?case
    proof (elim disjE)
      assume "y \<in> flood_from b1 ?S1"
      from y1[OF this] show ?thesis by blast
    next
      assume "y \<in> N"
      with step.hyps(2) have "y \<in> ?S1" by simp
      then have "y \<in> flood_from b1 ?S1" by (rule flood_from.base)
      from y1[OF this] show ?thesis by blast
    next
      assume "y = c"
      with step.hyps(3,4) have "n \<in> N" by (simp add: N)
      then show ?thesis by simp
    qed
  qed
  have "c \<in> flood_from b (insert c S)" by (rule flood_from.base) simp
  with sub1 sub2 N_sub show ?thesis by blast
qed

text \<open>The cells that are revealed in \<open>b'\<close> and were not in \<open>b\<close>.\<close>

definition newly :: "board \<Rightarrow> board \<Rightarrow> (int \<times> int) set" where
  "newly b b' = {c. inside b c \<and> revealed (cell_of b' c) \<and> \<not> revealed (cell_of b c)}"

lemma cell_revealed_id: "revealed c \<Longrightarrow> c\<lparr>revealed := True\<rparr> = c"
  by (cases c) simp

lemma finite_inside: "finite {c. inside b c}"
proof -
  have "{c. inside b c} = set (all_coords b)"
    by (auto simp: set_all_coords inside_def)
  then show ?thesis by simp
qed

lemma finite_newly: "finite (newly b b')"
  by (rule finite_subset[OF _ finite_inside[of b]]) (auto simp: newly_def)

lemma newly_chain:
  assumes "\<And>c. inside b c \<Longrightarrow> inside b1 c"
    and "\<And>c. inside b c \<Longrightarrow> revealed (cell_of b c) \<Longrightarrow> revealed (cell_of b1 c)"
    and "\<And>c. inside b c \<Longrightarrow> revealed (cell_of b1 c) \<Longrightarrow> revealed (cell_of b' c)"
    and "\<And>c. inside b1 c \<Longrightarrow> inside b c"
  shows "card (newly b b') = card (newly b b1) + card (newly b1 b')"
proof -
  have "newly b b' = newly b b1 \<union> newly b1 b'"
    using assms by (auto simp: newly_def)
  moreover have "newly b b1 \<inter> newly b1 b' = {}" by (auto simp: newly_def)
  ultimately show ?thesis
    using card_Un_disjoint[OF finite_newly finite_newly, of b b1 b1 b'] by simp
qed

lemma flood_neighbors_cells:
  assumes wf: "wf_board b" and c: "inside b c"
    and r: "flood_neighbors b st v (neighbors b (fst c) (snd c)) = Inr (b1, st1, v1)"
  defines "N \<equiv> {n \<in> set (neighbors b (fst c) (snd c)). eligible b n}"
  shows "\<And>x. inside b x \<Longrightarrow>
           cell_of b1 x = (if x \<in> N then (cell_of b x)\<lparr>revealed := True\<rparr> else cell_of b x)"
    and "set st1 = set st \<union> {n \<in> N. adj (cell_of b n) = 0}"
    and "revealed_count b1 = revealed_count b + int (card N)"
    and "newly b b1 = N"
proof -
  let ?ns = "neighbors b (fst c) (snd c)"
  have nsin: "\<forall>n \<in> set ?ns. in_bounds b (fst n) (snd n)"
    by (simp add: neighbors_in_bounds)
  from flood_neighbors_spec[OF wf nsin, of st v] r
  have cells: "\<And>x y. in_bounds b x y \<Longrightarrow> cell_of b1 (x, y) =
          (if (x, y) \<in> set ?ns \<and> eligible b (x, y)
           then (cell_of b (x, y))\<lparr>revealed := True\<rparr> else cell_of b (x, y))"
    and st1: "set st1 = set st \<union> {n \<in> set ?ns. eligible b n \<and> adj (cell_of b n) = 0}"
    and cnt: "revealed_count b1 = revealed_count b + int (card {n \<in> set ?ns. eligible b n})"
    by auto
  show c1: "cell_of b1 x = (if x \<in> N then (cell_of b x)\<lparr>revealed := True\<rparr> else cell_of b x)"
    if "inside b x" for x
    using cells[of "fst x" "snd x"] that by (simp add: inside_def N_def)
  show "set st1 = set st \<union> {n \<in> N. adj (cell_of b n) = 0}"
    unfolding st1 N_def by auto
  show "revealed_count b1 = revealed_count b + int (card N)"
    unfolding cnt N_def ..
  have Nin: "inside b n" if "n \<in> N" for n
    using that by (auto simp: N_def intro: neighbors_inside)
  have rev1: "revealed (cell_of b1 x) \<longleftrightarrow> revealed (cell_of b x) \<or> x \<in> N" if "inside b x" for x
    using c1[OF that] by (cases "x \<in> N") simp_all
  show "newly b b1 = N"
  proof (rule set_eqI)
    fix x show "x \<in> newly b b1 \<longleftrightarrow> x \<in> N"
    proof
      assume "x \<in> newly b b1"
      then have "inside b x" "revealed (cell_of b1 x)" "\<not> revealed (cell_of b x)"
        by (simp_all add: newly_def)
      with rev1 show "x \<in> N" by simp
    next
      assume n: "x \<in> N"
      then have i: "inside b x" by (rule Nin)
      from n have "\<not> revealed (cell_of b x)" by (simp add: N_def eligible_def)
      with i rev1[OF i] n show "x \<in> newly b b1" by (simp add: newly_def)
    qed
  qed
qed

lemma frame_inside: "frame b b' \<Longrightarrow> inside b' c = inside b c"
  by (simp add: inside_def frame_in_bounds)

lemma flood_from_empty: "x \<notin> flood_from b {}"
proof
  assume "x \<in> flood_from b {}"
  then show False by (induction rule: flood_from.induct) simp_all
qed

lemma flood_loop_spec:
  assumes "wf_board b"
    and "\<forall>c \<in> set st. inside b c \<and> revealed (cell_of b c) \<and> adj (cell_of b c) = 0"
  shows "\<exists>b'. flood_loop b st v = Inr b' \<and>
           (\<forall>x. inside b x \<longrightarrow>
              cell_of b' x = (if x \<in> flood_from b (set st)
                              then (cell_of b x)\<lparr>revealed := True\<rparr> else cell_of b x)) \<and>
           revealed_count b' = revealed_count b + int (card (newly b b'))"
  using assms
proof (induction b st v rule: flood_loop_induct)
  case (Nil b v)
  have "newly b b = {}" by (auto simp: newly_def)
  moreover have "cell_of b x = (if x \<in> flood_from b {} then (cell_of b x)\<lparr>revealed := True\<rparr> else cell_of b x)"
    for x by (simp add: flood_from_empty)
  ultimately show ?case by (simp add: flood_loop_Nil)
next
  case (snoc b st c v)
  note wf = snoc.prems(1)
  from snoc.prems(2) have c: "inside b c" "revealed (cell_of b c)" "adj (cell_of b c) = 0"
    and S: "\<forall>s \<in> set st. inside b s \<and> revealed (cell_of b s) \<and> adj (cell_of b s) = 0"
    by simp_all
  let ?ns = "neighbors b (fst c) (snd c)"
  define N where "N = {n \<in> set ?ns. eligible b n}"
  have nsin: "\<forall>n \<in> set ?ns. in_bounds b (fst n) (snd n)"
    by (simp add: neighbors_in_bounds)
  from flood_neighbors_spec[OF wf nsin, of st v] obtain b1 st1 v1 where
    r1: "flood_neighbors b st v ?ns = Inr (b1, st1, v1)" by blast
  note f1 = flood_neighbors_frame[OF r1]
  note wf1 = frame_wf[OF f1 wf]
  note fc = flood_neighbors_cells[OF wf c(1) r1, folded N_def]
  have Nin: "inside b n" if "n \<in> N" for n
    using that by (auto simp: N_def intro: neighbors_inside)
  have rev1: "revealed (cell_of b1 x) \<longleftrightarrow> revealed (cell_of b x) \<or> x \<in> N" if "inside b x" for x
    using fc(1)[OF that] by (cases "x \<in> N") simp_all
  have adj1: "adj (cell_of b1 x) = adj (cell_of b x)" if "inside b x" for x
    using fc(1)[OF that] by (cases "x \<in> N") simp_all
  have el1: "eligible b1 x \<longleftrightarrow> eligible b x \<and> x \<notin> N" if "inside b x" for x
    using fc(1)[OF that] by (cases "x \<in> N") (simp_all add: eligible_def)
  have st1: "\<forall>s \<in> set st1. inside b1 s \<and> revealed (cell_of b1 s) \<and> adj (cell_of b1 s) = 0"
  proof
    fix s assume "s \<in> set st1"
    then have "s \<in> set st \<or> (s \<in> N \<and> adj (cell_of b s) = 0)" by (simp add: fc(2))
    then have "inside b s \<and> (revealed (cell_of b s) \<or> s \<in> N) \<and> adj (cell_of b s) = 0"
      using S Nin by blast
    then show "inside b1 s \<and> revealed (cell_of b1 s) \<and> adj (cell_of b1 s) = 0"
      using rev1[of s] adj1[of s] by (simp add: frame_inside[OF f1])
  qed
  from snoc.IH[OF r1 wf1 st1] obtain b' where
    fl: "flood_loop b1 st1 v1 = Inr b'"
    and cells': "\<And>x. inside b x \<Longrightarrow>
              cell_of b' x = (if x \<in> flood_from b1 (set st1)
                              then (cell_of b1 x)\<lparr>revealed := True\<rparr> else cell_of b1 x)"
    and cnt': "revealed_count b' = revealed_count b1 + int (card (newly b1 b'))"
    by (auto simp: frame_inside[OF f1])
  have res: "flood_loop b (st @ [c]) v = Inr b'"
    by (simp add: flood_loop_snoc r1 fl)
  have sc: "set (st @ [c]) = insert c (set st)" by simp
  have split: "flood_from b (insert c (set st)) = flood_from b1 (set st1) \<union> N \<union> {c}"
  proof -
    have "flood_from b (insert c (set st)) =
        flood_from b1 (set st \<union> {n \<in> N. adj (cell_of b n) = 0}) \<union> N \<union> {c}"
      using f1 adj1 el1 N_def c(3) S
      by (intro flood_from_split) (simp_all add: frame_def)
    then show ?thesis by (simp add: fc(2))
  qed
  have rev': "revealed (cell_of b' x) \<longleftrightarrow> revealed (cell_of b1 x) \<or> x \<in> flood_from b1 (set st1)"
    if "inside b x" for x
    using cells'[OF that] by (cases "x \<in> flood_from b1 (set st1)") simp_all
  have cells: "cell_of b' x = (if x \<in> flood_from b (set (st @ [c]))
                              then (cell_of b x)\<lparr>revealed := True\<rparr> else cell_of b x)"
    if x: "inside b x" for x
  proof (cases "x \<in> flood_from b1 (set st1)")
    case True
    then have "cell_of b' x = (cell_of b1 x)\<lparr>revealed := True\<rparr>" using cells'[OF x] by simp
    also have "\<dots> = (cell_of b x)\<lparr>revealed := True\<rparr>"
      using fc(1)[OF x] by (cases "x \<in> N") simp_all
    finally show ?thesis unfolding sc split using True by simp
  next
    case F: False
    then have e: "cell_of b' x = cell_of b1 x" using cells'[OF x] by simp
    show ?thesis
    proof (cases "x \<in> N")
      case True
      then show ?thesis unfolding sc split using e fc(1)[OF x] by simp
    next
      case nN: False
      then have e1: "cell_of b' x = cell_of b x" using e fc(1)[OF x] by simp
      show ?thesis
      proof (cases "x = c")
        case True
        then show ?thesis unfolding sc split using e1 c(2) by (simp add: cell_revealed_id)
      next
        case False
        then show ?thesis unfolding sc split using e1 F nN by simp
      qed
    qed
  qed
  have "card (newly b b') = card (newly b b1) + card (newly b1 b')"
  proof (rule newly_chain)
    show "inside b1 x" if "inside b x" for x using that by (simp add: frame_inside[OF f1])
    show "inside b x" if "inside b1 x" for x using that by (simp add: frame_inside[OF f1])
    show "revealed (cell_of b1 x)" if "inside b x" "revealed (cell_of b x)" for x
      using that rev1 by simp
    show "revealed (cell_of b' x)" if "inside b x" "revealed (cell_of b1 x)" for x
      using that rev' by simp
  qed
  then have cnt: "revealed_count b' = revealed_count b + int (card (newly b b'))"
    using cnt' fc(3) fc(4) by simp
  show ?case
  proof (intro exI conjI allI impI)
    show "flood_loop b (st @ [c]) v = Inr b'" by (rule res)
    show "revealed_count b' = revealed_count b + int (card (newly b b'))" by (rule cnt)
  qed (rule cells)
qed

text \<open>
  The cells that a reveal of the unrevealed cell \<open>c\<close> turns to revealed: the flood-fill
  region of \<open>c\<close> when \<open>c\<close> is a zero cell and not a mine, \<open>c\<close> alone otherwise.
\<close>

definition reveal_region :: "board \<Rightarrow> int \<times> int \<Rightarrow> (int \<times> int) set" where
  "reveal_region b c =
     (if \<not> mine (cell_of b c) \<and> adj (cell_of b c) = 0 then flood_from b {c} else {c})"

lemma flood_from_start:
  assumes dims: "w b3 = w b" "h b3 = h b"
    and adj3: "\<And>x. inside b x \<Longrightarrow> adj (cell_of b3 x) = adj (cell_of b x)"
    and el3: "\<And>x. inside b x \<Longrightarrow> eligible b3 x \<longleftrightarrow> eligible b x \<and> x \<noteq> s"
    and s: "inside b s"
  shows "flood_from b3 {s} = flood_from b {s}"
proof -
  have nb: "neighbors b3 x y = neighbors b x y" for x y
    using dims by (simp add: neighbors_filter in_bounds_def)
  have in3: "inside b x" if "x \<in> flood_from b3 {s}" for x
    using flood_from_cases[OF that] s dims by (auto simp: inside_def in_bounds_def)
  have in0: "inside b x" if "x \<in> flood_from b {s}" for x
    using flood_from_cases[OF that] s by auto
  have a: "x \<in> flood_from b {s}" if "x \<in> flood_from b3 {s}" for x
    using that
  proof (induction rule: flood_from.induct)
    case (base c)
    then show ?case by (rule flood_from.base)
  next
    case (step y n)
    have n: "inside b n" using step.hyps(3) unfolding nb by (rule neighbors_inside)
    show ?case
    proof (rule flood_from.step[OF step.IH])
      show "adj (cell_of b y) = 0" using step.hyps(2) adj3[OF in3[OF step.hyps(1)]] by simp
      show "n \<in> set (neighbors b (fst y) (snd y))" using step.hyps(3) by (simp add: nb)
      show "eligible b n" using step.hyps(4) el3[OF n] by simp
    qed
  qed
  have c: "x \<in> flood_from b3 {s}" if "x \<in> flood_from b {s}" for x
    using that
  proof (induction rule: flood_from.induct)
    case (base c)
    then show ?case by (rule flood_from.base)
  next
    case (step y n)
    have n: "inside b n" using step.hyps(3) by (rule neighbors_inside)
    show ?case
    proof (cases "n = s")
      case True
      then show ?thesis by (simp add: flood_from.base)
    next
      case False
      show ?thesis
      proof (rule flood_from.step[OF step.IH])
        show "adj (cell_of b3 y) = 0" using step.hyps(2) adj3[OF in0[OF step.hyps(1)]] by simp
        show "n \<in> set (neighbors b3 (fst y) (snd y))" using step.hyps(3) by (simp add: nb)
        show "eligible b3 n" using step.hyps(4) False el3[OF n] by simp
      qed
    qed
  qed
  from a c show ?thesis by blast
qed

lemma reveal_placed_spec:
  assumes wf: "wf_board b" and ib: "in_bounds b x y"
    and nr: "\<not> revealed (cell_of b (x, y))"
  shows "\<exists>b'. reveal_placed b (nat y, nat x) x y = Inr (b', True, mine (cell_of b (x, y))) \<and>
           frame b b' \<and>
           (\<forall>c. inside b c \<longrightarrow>
              cell_of b' c = (if c \<in> reveal_region b (x, y)
                              then (cell_of b c)\<lparr>revealed := True\<rparr> else cell_of b c)) \<and>
           revealed_count b' = revealed_count b + int (card (newly b b'))"
proof -
  let ?s = "(x, y)"
  let ?b3 = "b\<lparr>grid := put_cell (grid b) (nat y, nat x) ((cell_of b ?s)\<lparr>revealed := True\<rparr>),
                revealed_count := revealed_count b + 1\<rparr>"
  have s: "inside b ?s" using ib by (simp add: inside_def)
  have f3: "frame b ?b3" by (simp add: frame_def)
  have wf3: "wf_board ?b3" by (rule frame_wf[OF f3 wf])
  have c3: "cell_of ?b3 c = (if c = ?s then (cell_of b ?s)\<lparr>revealed := True\<rparr> else cell_of b c)"
    if "inside b c" for c
    using cell_of_put[OF wf ib, of "fst c" "snd c"] that by (simp add: inside_def)
  have n3: "newly b ?b3 = {?s}"
  proof (rule set_eqI)
    fix c show "c \<in> newly b ?b3 \<longleftrightarrow> c \<in> {?s}"
    proof (cases "c = ?s")
      case True
      then show ?thesis using c3[OF s] s nr by (simp add: newly_def)
    next
      case False
      have "revealed (cell_of ?b3 c) = revealed (cell_of b c)" if "inside b c"
        using c3[OF that] False by simp
      then show ?thesis using False by (auto simp: newly_def)
    qed
  qed
  have cell_at_s: "cell_at (grid b) (nat y, nat x) = cell_of b ?s" by (simp add: cell_of_def)
  show ?thesis
  proof (cases "\<not> mine (cell_of b ?s) \<and> adj (cell_of b ?s) = 0")
    case False
    have res: "reveal_placed b (nat y, nat x) x y = Inr (?b3, True, mine (cell_of b ?s))"
      using False by (auto simp: reveal_placed_def cell_at_s Let_def)
    have reg: "reveal_region b ?s = {?s}" using False by (auto simp: reveal_region_def)
    have "cell_of ?b3 c = (if c \<in> reveal_region b ?s
                              then (cell_of b c)\<lparr>revealed := True\<rparr> else cell_of b c)"
      if "inside b c" for c
      unfolding reg using c3[OF that] by (cases "c = ?s") simp_all
    moreover have "revealed_count ?b3 = revealed_count b + int (card (newly b ?b3))"
      unfolding n3 by simp
    ultimately show ?thesis using res f3 by blast
  next
    case True
    have reg: "reveal_region b ?s = flood_from b {?s}" using True by (simp add: reveal_region_def)
    have st: "\<forall>c \<in> set [?s]. inside ?b3 c \<and> revealed (cell_of ?b3 c) \<and> adj (cell_of ?b3 c) = 0"
      using c3[OF s] s True by (simp add: frame_inside[OF f3])
    from flood_loop_spec[OF wf3 st, of "{?s}"] obtain b' where
      fl: "flood_loop ?b3 [?s] {?s} = Inr b'"
      and cells': "\<And>c. inside b c \<Longrightarrow>
              cell_of b' c = (if c \<in> flood_from ?b3 (set [?s])
                              then (cell_of ?b3 c)\<lparr>revealed := True\<rparr> else cell_of ?b3 c)"
      and cnt': "revealed_count b' = revealed_count ?b3 + int (card (newly ?b3 b'))"
      by (auto simp: frame_inside[OF f3])
    note f' = flood_loop_frame[OF fl]
    have el3: "eligible ?b3 c \<longleftrightarrow> eligible b c \<and> c \<noteq> ?s" if "inside b c" for c
      using c3[OF that] nr by (cases "c = ?s") (simp_all add: eligible_def)
    have adj3: "adj (cell_of ?b3 c) = adj (cell_of b c)" if "inside b c" for c
      using c3[OF that] by (cases "c = ?s") simp_all
    have ff: "flood_from ?b3 (set [?s]) = flood_from b {?s}"
      using flood_from_start[of ?b3 b ?s, OF _ _ adj3 el3 s] by simp
    have sF: "?s \<in> flood_from b {?s}" by (rule flood_from.base) simp
    have res: "reveal_placed b (nat y, nat x) x y = Inr (b', True, mine (cell_of b ?s))"
      using True fl by (simp add: reveal_placed_def cell_at_s Let_def)
    have cells: "cell_of b' c = (if c \<in> reveal_region b ?s
                              then (cell_of b c)\<lparr>revealed := True\<rparr> else cell_of b c)"
      if c: "inside b c" for c
    proof (cases "c = ?s")
      case True
      then show ?thesis unfolding reg using cells'[OF c] c3[OF c] sF unfolding ff by simp
    next
      case False
      then show ?thesis unfolding reg using cells'[OF c] c3[OF c] unfolding ff by simp
    qed
    have rev': "revealed (cell_of b' c) \<longleftrightarrow> revealed (cell_of ?b3 c) \<or> c \<in> flood_from b {?s}"
      if c: "inside b c" for c
      using cells'[OF c] unfolding ff by (cases "c \<in> flood_from b {?s}") simp_all
    have "card (newly b b') = card (newly b ?b3) + card (newly ?b3 b')"
    proof (rule newly_chain)
      show "inside ?b3 c" if "inside b c" for c using that by (simp add: frame_inside[OF f3])
      show "inside b c" if "inside ?b3 c" for c using that by (simp add: frame_inside[OF f3])
      show "revealed (cell_of ?b3 c)" if "inside b c" "revealed (cell_of b c)" for c
        using that c3[of c] by (cases "c = ?s") simp_all
      show "revealed (cell_of b' c)" if "inside b c" "revealed (cell_of ?b3 c)" for c
        using that rev' by simp
    qed
    then have cnt: "revealed_count b' = revealed_count b + int (card (newly b b'))"
      using cnt' unfolding n3 by simp
    have fr: "frame b b'" by (rule frame_trans[OF f3 f'])
    show ?thesis
    proof (intro exI conjI allI impI)
      show "reveal_placed b (nat y, nat x) x y = Inr (b', True, mine (cell_of b ?s))" by (rule res)
      show "frame b b'" by (rule fr)
      show "revealed_count b' = revealed_count b + int (card (newly b b'))" by (rule cnt)
    qed (rule cells)
  qed
qed

lemma reveal_open:
  assumes "wf_board b" "in_bounds b x y" "mines_placed b"
    and "\<not> flagged (cell_of b (x, y))" "\<not> revealed (cell_of b (x, y))"
  shows "reveal ms b x y = reveal_placed b (nat y, nat x) x y"
  using assms
  by (simp add: reveal_unfold locate_in_bounds cell_of_def)

lemma flood_from_eligible:
  assumes "c \<in> flood_from b {s}" "inside b s" "eligible b s"
  shows "inside b c \<and> eligible b c"
  using flood_from_cases[OF assms(1)] assms(2,3) by auto


lemma ex_placed_wf: "wf_board ex_placed"
  by code_simp

lemma reveal_returns:
  assumes "reachable b" "mines_placed b \<or> is_sample (candidates b x y) (mine_target b) ms"
  shows "\<exists>b' ok hit. reveal ms b x y = Inr (b', ok, hit)"
proof -
  from reachable_inv[OF assms(1)] have wf: "wf_board b"
    and mt: "0 \<le> mine_target b" "mine_target b \<le> w b * h b - 1"
    and nm: "mines_placed b \<or> no_mines b"
    by (simp_all add: board_inv_def)
  show ?thesis
  proof (cases "in_bounds b x y")
    case False
    then have "reveal ms b x y = Inr (b, False, False)" by (rule reveal_out_of_bounds)
    then show ?thesis by blast
  next
    case ib: True
    note loc = locate_in_bounds[OF wf ib]
    show ?thesis
    proof (cases "flagged (cell_of b (x, y)) \<or> revealed (cell_of b (x, y))")
      case True
      then have "reveal ms b x y = Inr (b, False, False) \<or> reveal ms b x y = Inr (b, True, False)"
        using loc ib by (auto simp: reveal_unfold cell_of_def)
      then show ?thesis by blast
    next
      case False
      have "\<exists>b1. (if \<not> mines_placed b then place_mines_excluding ms b x y else Inr b) = Inr b1 \<and>
              wf_board b1 \<and> in_bounds b1 x y \<and> \<not> revealed (cell_of b1 (x, y))"
      proof (cases "mines_placed b")
        case True
        then show ?thesis using wf ib False by simp
      next
        case np: False
        with nm assms(2) have "no_mines b" "is_sample (candidates b x y) (mine_target b) ms"
          by simp_all
        from place_mines_excluding_spec[OF wf this(1) ib mt this(2)] obtain b1 where
          p: "place_mines_excluding ms b x y = Inr b1"
          and f: "frame (b\<lparr>mines_placed := True\<rparr>) b1"
          and c: "\<And>x y. in_bounds b x y \<Longrightarrow> revealed (cell_of b1 (x, y)) = revealed (cell_of b (x, y))"
          by blast
        have "wf_board b1" using f wf by (simp add: frame_def wf_board_def)
        moreover have "in_bounds b1 x y" using f ib by (simp add: frame_def in_bounds_def)
        ultimately show ?thesis using p np c[OF ib] False by simp
      qed
      then obtain b1 where b1: "(if \<not> mines_placed b then place_mines_excluding ms b x y else Inr b) = Inr b1"
        and w1: "wf_board b1" "in_bounds b1 x y" "\<not> revealed (cell_of b1 (x, y))" by blast
      from reveal_placed_spec[OF w1] obtain b' where
        "reveal_placed b1 (nat y, nat x) x y = Inr (b', True, mine (cell_of b1 (x, y)))" by blast
      then have "reveal ms b x y = Inr (b', True, mine (cell_of b1 (x, y)))"
        using False loc ib b1 by (simp add: reveal_unfold cell_of_def)
      then show ?thesis by blast
    qed
  qed
qed

lemma flood_loop_ok:
  assumes "wf_board b" "\<forall>c \<in> set st. inside b c"
  shows "\<exists>b'. flood_loop b st v = Inr b'"
  using assms
proof (induction b st v rule: flood_loop_induct)
  case (Nil b v)
  then show ?case by (simp add: flood_loop_Nil)
next
  case (snoc b st c v)
  let ?ns = "neighbors b (fst c) (snd c)"
  have nsin: "\<forall>n \<in> set ?ns. in_bounds b (fst n) (snd n)"
    by (simp add: neighbors_in_bounds)
  from flood_neighbors_spec[OF snoc.prems(1) nsin, of st v] obtain b1 st1 v1 where
    r1: "flood_neighbors b st v ?ns = Inr (b1, st1, v1)"
    and st1: "set st1 = set st \<union> {n \<in> set ?ns. eligible b n \<and> adj (cell_of b n) = 0}"
    by blast
  note f1 = flood_neighbors_frame[OF r1]
  have "\<forall>s \<in> set st1. inside b1 s"
    unfolding st1 frame_inside[OF f1] using snoc.prems(2) by (auto intro: neighbors_inside)
  from snoc.IH[OF r1 frame_wf[OF f1 snoc.prems(1)] this] show ?case
    by (simp add: flood_loop_snoc r1)
qed


text \<open>
  The 3 by 3 board at the start of the flood fill from \<open>(0, 0)\<close>, and after its first
  pass.
\<close>

definition ex_start :: board where
  "ex_start = ex_placed\<lparr>grid := put_cell (grid ex_placed) (0, 0) (Cell\<lparr>revealed := True\<rparr>),
                        revealed_count := 1\<rparr>"

definition ex_pass :: board where
  "ex_pass = \<lparr>w = 3, h = 3, mine_target = 1,
     grid = [[Cell\<lparr>revealed := True\<rparr>, Cell\<lparr>revealed := True\<rparr>, Cell],
             [Cell\<lparr>revealed := True\<rparr>, Cell\<lparr>revealed := True, adj := 1\<rparr>, Cell\<lparr>adj := 1\<rparr>],
             [Cell, Cell\<lparr>adj := 1\<rparr>, Cell\<lparr>mine := True, flagged := True\<rparr>]],
     mines_placed = True, revealed_count = 4\<rparr>"

subsection \<open>The chord\<close>

lemma reachable_revealed_placed:
  "reachable b \<Longrightarrow> mines_placed b \<or> (\<forall>x y. in_bounds b x y \<longrightarrow> \<not> revealed (cell_of b (x, y)))"
proof (induction rule: reachable.induct)
  case (init wd ht m b)
  then show ?case
    by (auto simp: Board_init_def Let_def in_bounds_def cell_of_def cell_at_def Cell_def
        split: if_splits)
next
  case (flag b x y b' r)
  from reachable_inv[OF flag.hyps(1)] have wf: "wf_board b" by (simp add: board_inv_def)
  note f = toggle_flag_frame[OF flag.hyps(2)]
  show ?case
  proof (cases "mines_placed b")
    case True
    then show ?thesis using f by (simp add: frame_def)
  next
    case False
    with flag.IH have nr: "\<And>x y. in_bounds b x y \<Longrightarrow> \<not> revealed (cell_of b (x, y))" by simp
    have "\<not> revealed (cell_of b' (x', y'))" if "in_bounds b' x' y'" for x' y'
    proof -
      from that have ib: "in_bounds b x' y'" by (simp add: frame_in_bounds[OF f])
      show ?thesis
        using toggle_flag_cell[OF wf flag.hyps(2) ib] nr[OF ib]
        by (cases "r \<and> (x', y') = (x, y)") auto
    qed
    then show ?thesis by simp
  qed
next
  case (reveal b x y ms b' ok hit)
  from reveal_cases[OF reveal.hyps(3)] show ?case
  proof
    assume "b' = b" with reveal.IH show ?thesis by simp
  next
    assume "frame (b\<lparr>mines_placed := True\<rparr>) b'"
    then show ?thesis by (simp add: frame_def)
  qed
qed

text \<open>
  \<open>grows b b'\<close>: \<open>b'\<close> differs from \<open>b\<close> at most in \<open>revealed_count\<close> and in cells that
  went from unrevealed to revealed.
\<close>

definition grows :: "board \<Rightarrow> board \<Rightarrow> bool" where
  "grows b b' \<longleftrightarrow>
     frame b b' \<and>
     (\<forall>c. inside b c \<longrightarrow>
        mine (cell_of b' c) = mine (cell_of b c) \<and> flagged (cell_of b' c) = flagged (cell_of b c) \<and>
        adj (cell_of b' c) = adj (cell_of b c) \<and>
        (revealed (cell_of b c) \<longrightarrow> revealed (cell_of b' c)))"

lemma grows_refl: "grows b b"
  by (simp add: grows_def frame_refl)

lemma grows_trans: "grows b b1 \<Longrightarrow> grows b1 b2 \<Longrightarrow> grows b b2"
  unfolding grows_def by (auto intro: frame_trans simp: frame_inside)

lemma grows_wf: "grows b b' \<Longrightarrow> wf_board b \<Longrightarrow> wf_board b'"
  by (auto simp: grows_def intro: frame_wf)

lemma reveal_placed_grows:
  assumes "wf_board b" "in_bounds b x y" "\<not> revealed (cell_of b (x, y))"
  shows "\<exists>b'. reveal_placed b (nat y, nat x) x y = Inr (b', True, mine (cell_of b (x, y))) \<and>
           grows b b' \<and> revealed (cell_of b' (x, y)) \<and>
           (mine (cell_of b (x, y)) \<longrightarrow>
              (\<forall>c. inside b c \<and> c \<noteq> (x, y) \<longrightarrow> cell_of b' c = cell_of b c))"
proof -
  from reveal_placed_spec[OF assms] obtain b' where
    res: "reveal_placed b (nat y, nat x) x y = Inr (b', True, mine (cell_of b (x, y)))"
    and fr: "frame b b'"
    and cells: "\<And>c. inside b c \<Longrightarrow>
              cell_of b' c = (if c \<in> reveal_region b (x, y)
                              then (cell_of b c)\<lparr>revealed := True\<rparr> else cell_of b c)"
    by blast
  have s: "inside b (x, y)" using assms(2) by (simp add: inside_def)
  have sr: "(x, y) \<in> reveal_region b (x, y)"
    by (simp add: reveal_region_def flood_from.base)
  have g: "grows b b'"
    unfolding grows_def
  proof (intro conjI allI impI)
    show "frame b b'" by (rule fr)
  next
    fix c assume c: "inside b c"
    show "mine (cell_of b' c) = mine (cell_of b c)"
      using cells[OF c] by (cases "c \<in> reveal_region b (x, y)") simp_all
    show "flagged (cell_of b' c) = flagged (cell_of b c)"
      using cells[OF c] by (cases "c \<in> reveal_region b (x, y)") simp_all
    show "adj (cell_of b' c) = adj (cell_of b c)"
      using cells[OF c] by (cases "c \<in> reveal_region b (x, y)") simp_all
    show "revealed (cell_of b' c)" if "revealed (cell_of b c)"
      using cells[OF c] that by (cases "c \<in> reveal_region b (x, y)") simp_all
  qed
  have r: "revealed (cell_of b' (x, y))" using cells[OF s] sr by simp
  have m: "cell_of b' c = cell_of b c" if "mine (cell_of b (x, y))" "inside b c" "c \<noteq> (x, y)" for c
  proof -
    from that(1) have "reveal_region b (x, y) = {(x, y)}" by (simp add: reveal_region_def)
    with cells[OF that(2)] that(3) show ?thesis by simp
  qed
  from res g r m show ?thesis by blast
qed

lemma count_flagged_spec:
  assumes "wf_board b" "\<forall>c \<in> set ns. in_bounds b (fst c) (snd c)"
  shows "count_flagged (grid b) ns = Inr (int (length (filter (\<lambda>n. flagged (cell_of b n)) ns)))"
  using assms(2)
proof (induction ns)
  case Nil
  then show ?case by simp
next
  case (Cons n ns)
  obtain nx ny where n: "n = (nx, ny)" by (cases n)
  from Cons.prems have ib: "in_bounds b nx ny" by (simp add: n)
  from Cons show ?case
    by (simp add: n locate_in_bounds[OF assms(1) ib] cell_of_def)
qed

lemma chord_loop_step:
  assumes "wf_board b" "in_bounds b nx ny"
  shows "chord_loop ms b ((nx, ny) # ns) =
     (if \<not> flagged (cell_of b (nx, ny)) \<and> \<not> revealed (cell_of b (nx, ny))
      then (case reveal ms b nx ny of
              Inl e \<Rightarrow> Inl e
            | Inr (b', ok, hit) \<Rightarrow> if hit then Inr (b', True) else chord_loop ms b' ns)
      else chord_loop ms b ns)"
  by (simp add: locate_in_bounds[OF assms] cell_of_def)

lemma chord_loop_spec:
  assumes "wf_board b" "mines_placed b" "\<forall>n \<in> set ns. inside b n"
  shows "\<exists>b' hit. chord_loop ms b ns = Inr (b', hit) \<and> grows b b' \<and>
           (\<not> hit \<longrightarrow> (\<forall>n \<in> set ns. flagged (cell_of b' n) \<or> revealed (cell_of b' n))) \<and>
           (hit \<longrightarrow>
              (\<exists>pre n post b1.
                 ns = pre @ n # post \<and> chord_loop ms b pre = Inr (b1, False) \<and>
                 \<not> flagged (cell_of b1 n) \<and> \<not> revealed (cell_of b1 n) \<and> mine (cell_of b1 n) \<and>
                 reveal ms b1 (fst n) (snd n) = Inr (b', True, True) \<and>
                 (\<forall>c. inside b c \<and> c \<noteq> n \<longrightarrow> cell_of b' c = cell_of b1 c)))"
  using assms
proof (induction ns arbitrary: b)
  case Nil
  show ?case by (rule exI[of _ b], rule exI[of _ False]) (simp add: grows_refl)
next
  case (Cons n ns)
  obtain nx ny where n: "n = (nx, ny)" by (cases n)
  note wf = Cons.prems(1) and mp = Cons.prems(2)
  from Cons.prems(3) have ib: "in_bounds b nx ny" and rest: "\<forall>m \<in> set ns. inside b m"
    by (simp_all add: n inside_def)
  note step = chord_loop_step[OF wf ib, of ms]
  show ?case
  proof (cases "\<not> flagged (cell_of b n) \<and> \<not> revealed (cell_of b n)")
    case False
    then have eq: "chord_loop ms b (n # ns') = chord_loop ms b ns'" for ns'
      unfolding n chord_loop_step[OF wf ib] by (auto simp: n)
    from Cons.IH[OF wf mp rest] obtain b' hit where
      r: "chord_loop ms b ns = Inr (b', hit)" and g: "grows b b'"
      and nh: "\<not> hit \<Longrightarrow> \<forall>m \<in> set ns. flagged (cell_of b' m) \<or> revealed (cell_of b' m)"
      and hh: "hit \<Longrightarrow> \<exists>pre m post b1.
                 ns = pre @ m # post \<and> chord_loop ms b pre = Inr (b1, False) \<and>
                 \<not> flagged (cell_of b1 m) \<and> \<not> revealed (cell_of b1 m) \<and> mine (cell_of b1 m) \<and>
                 reveal ms b1 (fst m) (snd m) = Inr (b', True, True) \<and>
                 (\<forall>c. inside b c \<and> c \<noteq> m \<longrightarrow> cell_of b' c = cell_of b1 c)"
      by blast
    have nin: "inside b n" using ib by (simp add: n inside_def)
    have n': "flagged (cell_of b' n) \<or> revealed (cell_of b' n)"
      using False g nin unfolding grows_def by blast
    have h': "\<exists>pre m post b1.
                 n # ns = pre @ m # post \<and> chord_loop ms b pre = Inr (b1, False) \<and>
                 \<not> flagged (cell_of b1 m) \<and> \<not> revealed (cell_of b1 m) \<and> mine (cell_of b1 m) \<and>
                 reveal ms b1 (fst m) (snd m) = Inr (b', True, True) \<and>
                 (\<forall>c. inside b c \<and> c \<noteq> m \<longrightarrow> cell_of b' c = cell_of b1 c)" if hit
    proof -
      from hh[OF that] obtain pre m post b1 where
        p: "ns = pre @ m # post" "chord_loop ms b pre = Inr (b1, False)"
        "\<not> flagged (cell_of b1 m)" "\<not> revealed (cell_of b1 m)" "mine (cell_of b1 m)"
        "reveal ms b1 (fst m) (snd m) = Inr (b', True, True)"
        "\<forall>c. inside b c \<and> c \<noteq> m \<longrightarrow> cell_of b' c = cell_of b1 c"
        by blast
      have "n # ns = (n # pre) @ m # post" using p(1) by simp
      moreover have "chord_loop ms b (n # pre) = Inr (b1, False)" using p(2) by (simp only: eq)
      ultimately show ?thesis using p(3-7) by blast
    qed
    show ?thesis
    proof (rule exI[of _ b'], rule exI[of _ hit], intro conjI)
      show "chord_loop ms b (n # ns) = Inr (b', hit)" using r by (simp only: eq)
      show "grows b b'" by (rule g)
      show "\<not> hit \<longrightarrow> (\<forall>m \<in> set (n # ns). flagged (cell_of b' m) \<or> revealed (cell_of b' m))"
        using nh n' by simp
      show "hit \<longrightarrow> (\<exists>pre m post b1.
                 n # ns = pre @ m # post \<and> chord_loop ms b pre = Inr (b1, False) \<and>
                 \<not> flagged (cell_of b1 m) \<and> \<not> revealed (cell_of b1 m) \<and> mine (cell_of b1 m) \<and>
                 reveal ms b1 (fst m) (snd m) = Inr (b', True, True) \<and>
                 (\<forall>c. inside b c \<and> c \<noteq> m \<longrightarrow> cell_of b' c = cell_of b1 c))"
        using h' by blast
    qed
  next
    case True
    then have nf: "\<not> flagged (cell_of b (nx, ny))" and nr: "\<not> revealed (cell_of b (nx, ny))"
      by (simp_all add: n)
    have nin: "inside b n" using ib by (simp add: n inside_def)
    from reveal_placed_grows[OF wf ib nr] obtain b1 where
      rp: "reveal_placed b (nat ny, nat nx) nx ny = Inr (b1, True, mine (cell_of b (nx, ny)))"
      and g1: "grows b b1" and r1: "revealed (cell_of b1 (nx, ny))"
      and m1: "mine (cell_of b (nx, ny)) \<Longrightarrow>
                 \<forall>c. inside b c \<and> c \<noteq> (nx, ny) \<longrightarrow> cell_of b1 c = cell_of b c"
      by blast
    have rv: "reveal ms b nx ny = Inr (b1, True, mine (cell_of b (nx, ny)))"
      using rp by (simp add: reveal_open[OF wf ib mp nf nr])
    show ?thesis
    proof (cases "mine (cell_of b (nx, ny))")
      case mn: True
      have res: "chord_loop ms b (n # ns) = Inr (b1, True)"
        unfolding n step using nf nr rv mn by simp
      have "\<exists>pre m post b0.
                 n # ns = pre @ m # post \<and> chord_loop ms b pre = Inr (b0, False) \<and>
                 \<not> flagged (cell_of b0 m) \<and> \<not> revealed (cell_of b0 m) \<and> mine (cell_of b0 m) \<and>
                 reveal ms b0 (fst m) (snd m) = Inr (b1, True, True) \<and>
                 (\<forall>c. inside b c \<and> c \<noteq> m \<longrightarrow> cell_of b1 c = cell_of b0 c)"
      proof (intro exI conjI)
        show "n # ns = [] @ n # ns" by simp
        show "chord_loop ms b [] = Inr (b, False)" by simp
        show "\<not> flagged (cell_of b n)" "\<not> revealed (cell_of b n)" "mine (cell_of b n)"
          using nf nr mn by (simp_all add: n)
        show "reveal ms b (fst n) (snd n) = Inr (b1, True, True)" using rv mn by (simp add: n)
        show "\<forall>c. inside b c \<and> c \<noteq> n \<longrightarrow> cell_of b1 c = cell_of b c"
          using m1[OF mn] by (simp add: n)
      qed
      then have "True \<longrightarrow> (\<exists>pre m post b0.
                 n # ns = pre @ m # post \<and> chord_loop ms b pre = Inr (b0, False) \<and>
                 \<not> flagged (cell_of b0 m) \<and> \<not> revealed (cell_of b0 m) \<and> mine (cell_of b0 m) \<and>
                 reveal ms b0 (fst m) (snd m) = Inr (b1, True, True) \<and>
                 (\<forall>c. inside b c \<and> c \<noteq> m \<longrightarrow> cell_of b1 c = cell_of b0 c))" by simp
      with res g1 show ?thesis
        by (intro exI[of _ b1] exI[of _ True] conjI) simp_all
    next
      case nm: False
      have eq: "chord_loop ms b (n # ns') = chord_loop ms b1 ns'" for ns'
        unfolding n chord_loop_step[OF wf ib] using nf nr rv nm by simp
      have wf1: "wf_board b1" by (rule grows_wf[OF g1 wf])
      have f1: "frame b b1" using g1 by (simp add: grows_def)
      have mp1: "mines_placed b1" using f1 mp by (simp add: frame_def)
      have rest1: "\<forall>m \<in> set ns. inside b1 m" using rest by (simp add: frame_inside[OF f1])
      from Cons.IH[OF wf1 mp1 rest1] obtain b' hit where
        r: "chord_loop ms b1 ns = Inr (b', hit)" and g: "grows b1 b'"
        and nh: "\<not> hit \<Longrightarrow> \<forall>m \<in> set ns. flagged (cell_of b' m) \<or> revealed (cell_of b' m)"
        and hh: "hit \<Longrightarrow> \<exists>pre m post b2.
                 ns = pre @ m # post \<and> chord_loop ms b1 pre = Inr (b2, False) \<and>
                 \<not> flagged (cell_of b2 m) \<and> \<not> revealed (cell_of b2 m) \<and> mine (cell_of b2 m) \<and>
                 reveal ms b2 (fst m) (snd m) = Inr (b', True, True) \<and>
                 (\<forall>c. inside b1 c \<and> c \<noteq> m \<longrightarrow> cell_of b' c = cell_of b2 c)"
        by blast
      have n': "revealed (cell_of b' n)"
        using r1 g nin unfolding grows_def by (simp add: n frame_inside[OF f1])
      have h': "\<exists>pre m post b2.
                 n # ns = pre @ m # post \<and> chord_loop ms b pre = Inr (b2, False) \<and>
                 \<not> flagged (cell_of b2 m) \<and> \<not> revealed (cell_of b2 m) \<and> mine (cell_of b2 m) \<and>
                 reveal ms b2 (fst m) (snd m) = Inr (b', True, True) \<and>
                 (\<forall>c. inside b c \<and> c \<noteq> m \<longrightarrow> cell_of b' c = cell_of b2 c)" if hit
      proof -
        from hh[OF that] obtain pre m post b2 where
          p: "ns = pre @ m # post" "chord_loop ms b1 pre = Inr (b2, False)"
          "\<not> flagged (cell_of b2 m)" "\<not> revealed (cell_of b2 m)" "mine (cell_of b2 m)"
          "reveal ms b2 (fst m) (snd m) = Inr (b', True, True)"
          "\<forall>c. inside b1 c \<and> c \<noteq> m \<longrightarrow> cell_of b' c = cell_of b2 c"
          by blast
        have "n # ns = (n # pre) @ m # post" using p(1) by simp
        moreover have "chord_loop ms b (n # pre) = Inr (b2, False)" using p(2) by (simp only: eq)
        moreover have "\<forall>c. inside b c \<and> c \<noteq> m \<longrightarrow> cell_of b' c = cell_of b2 c"
          using p(7) by (simp add: frame_inside[OF f1])
        ultimately show ?thesis using p(3-6) by blast
      qed
      show ?thesis
      proof (rule exI[of _ b'], rule exI[of _ hit], intro conjI)
        show "chord_loop ms b (n # ns) = Inr (b', hit)" using r by (simp only: eq)
        show "grows b b'" by (rule grows_trans[OF g1 g])
        show "\<not> hit \<longrightarrow> (\<forall>m \<in> set (n # ns). flagged (cell_of b' m) \<or> revealed (cell_of b' m))"
          using nh n' by simp
        show "hit \<longrightarrow> (\<exists>pre m post b2.
                 n # ns = pre @ m # post \<and> chord_loop ms b pre = Inr (b2, False) \<and>
                 \<not> flagged (cell_of b2 m) \<and> \<not> revealed (cell_of b2 m) \<and> mine (cell_of b2 m) \<and>
                 reveal ms b2 (fst m) (snd m) = Inr (b', True, True) \<and>
                 (\<forall>c. inside b c \<and> c \<noteq> m \<longrightarrow> cell_of b' c = cell_of b2 c))"
          using h' by blast
      qed
    qed
  qed
qed

text \<open>The number of flagged neighbours of a cell.\<close>

definition flagged_neighbors :: "board \<Rightarrow> int \<times> int \<Rightarrow> int" where
  "flagged_neighbors b c =
     int (length (filter (\<lambda>n. flagged (cell_of b n)) (neighbors b (fst c) (snd c))))"

lemma app_game_over_id: "\<not> game_over a \<Longrightarrow> a\<lparr>board := bo, game_over := False\<rparr> = a\<lparr>board := bo\<rparr>"
  by (cases a) simp


text \<open>
  A 4 by 3 board with one mine at \<open>(3, 1)\<close>: after the first reveal at \<open>(0, 0)\<close>; with
  a wrong flag on \<open>(3, 0)\<close>, and after the chord at \<open>(2, 1)\<close> that hits the mine; with the
  right flag on \<open>(3, 1)\<close>, and after the chord at \<open>(2, 1)\<close> that wins.
\<close>

definition ex5_fresh :: board where
  "ex5_fresh = \<lparr>w = 4, h = 3, mine_target = 1, grid = replicate 3 (replicate 4 Cell),
                mines_placed = False, revealed_count = 0\<rparr>"

definition ex5_open :: board where
  "ex5_open = \<lparr>w = 4, h = 3, mine_target = 1,
     grid = [[Cell\<lparr>revealed := True\<rparr>, Cell\<lparr>revealed := True\<rparr>,
              Cell\<lparr>revealed := True, adj := 1\<rparr>, Cell\<lparr>adj := 1\<rparr>],
             [Cell\<lparr>revealed := True\<rparr>, Cell\<lparr>revealed := True\<rparr>,
              Cell\<lparr>revealed := True, adj := 1\<rparr>, Cell\<lparr>mine := True\<rparr>],
             [Cell\<lparr>revealed := True\<rparr>, Cell\<lparr>revealed := True\<rparr>,
              Cell\<lparr>revealed := True, adj := 1\<rparr>, Cell\<lparr>adj := 1\<rparr>]],
     mines_placed = True, revealed_count = 9\<rparr>"

definition ex5_wrong :: board where
  "ex5_wrong = ex5_open\<lparr>grid := put_cell (grid ex5_open) (0, 3) (Cell\<lparr>flagged := True, adj := 1\<rparr>)\<rparr>"

definition ex5_boom :: board where
  "ex5_boom = ex5_wrong\<lparr>grid := put_cell (grid ex5_wrong) (1, 3) (Cell\<lparr>mine := True, revealed := True\<rparr>),
                        revealed_count := 10\<rparr>"

definition ex5_right :: board where
  "ex5_right = ex5_open\<lparr>grid := put_cell (grid ex5_open) (1, 3) (Cell\<lparr>mine := True, flagged := True\<rparr>)\<rparr>"

definition ex5_won :: board where
  "ex5_won = ex5_right\<lparr>grid := put_cell (put_cell (grid ex5_right) (0, 3) (Cell\<lparr>revealed := True, adj := 1\<rparr>))
                                    (2, 3) (Cell\<lparr>revealed := True, adj := 1\<rparr>),
                       revealed_count := 11\<rparr>"

lemma ex5_open_reachable: "reachable ex5_open"
proof -
  have i: "Board_init 4 3 1 = Inr ex5_fresh" by (simp add: Board_init_def ex5_fresh_def)
  have s: "is_sample (candidates ex5_fresh 0 0) (mine_target ex5_fresh) [(3, 1)]" by code_simp
  have r: "reveal [(3, 1)] ex5_fresh 0 0 = Inr (ex5_open, True, False)" by code_simp
  show ?thesis by (rule reachable.reveal[OF reachable.init[OF i] disjI2[OF s] r])
qed

lemma ex5_wrong_reachable: "reachable ex5_wrong"
proof -
  have "toggle_flag ex5_open 3 0 = Inr (ex5_wrong, True)" by code_simp
  then show ?thesis by (rule reachable.flag[OF ex5_open_reachable])
qed

lemma ex5_right_reachable: "reachable ex5_right"
proof -
  have "toggle_flag ex5_open 3 1 = Inr (ex5_right, True)" by code_simp
  then show ?thesis by (rule reachable.flag[OF ex5_open_reachable])
qed

section \<open>The claims\<close>

subsection \<open>C7: construction\<close>

text \<open>
  C7, as amended. \<open>Board_init\<close> fails with \<open>InvalidDimensions\<close> exactly when the width
  or the height is not positive; it fails with \<open>InvalidMineCount\<close> exactly when both are
  positive and the mine target is outside \<open>(0, width * height - 1]\<close> (the dimension
  check comes first); it succeeds exactly in the remaining case, and then the board
  has the given dimensions and target, a grid of \<open>height\<close> rows of \<open>width\<close> default
  cells (every in-bounds cell has all flags false and adjacency 0), no mines placed
  and a revealed count of 0.
\<close>

theorem Board_init_outcome:
  "(Board_init wd ht m = Inl InvalidDimensions \<longleftrightarrow> wd \<le> 0 \<or> ht \<le> 0) \<and>
   ((\<exists>k. Board_init wd ht m = Inl (InvalidMineCount k)) \<longleftrightarrow>
      0 < wd \<and> 0 < ht \<and> \<not> (0 < m \<and> m \<le> wd * ht - 1)) \<and>
   ((\<exists>b. Board_init wd ht m = Inr b) \<longleftrightarrow>
      0 < wd \<and> 0 < ht \<and> 0 < m \<and> m \<le> wd * ht - 1) \<and>
   (\<forall>b. Board_init wd ht m = Inr b \<longrightarrow>
      w b = wd \<and> h b = ht \<and> mine_target b = m \<and>
      grid b = replicate (nat ht) (replicate (nat wd) Cell) \<and>
      (\<forall>x y. in_bounds b x y \<longrightarrow>
         locate (grid b) x y = Some (nat y, nat x) \<and>
         cell_of b (x, y) = \<lparr>mine = False, revealed = False, flagged = False, adj = 0\<rparr>) \<and>
      \<not> mines_placed b \<and> revealed_count b = 0)"
proof -
  have cells: "locate (grid b) x y = Some (nat y, nat x) \<and>
      cell_of b (x, y) = \<lparr>mine = False, revealed = False, flagged = False, adj = 0\<rparr>"
    if b: "Board_init wd ht m = Inr b" and xy: "in_bounds b x y" for b x y
  proof -
    from b have g: "grid b = replicate (nat ht) (replicate (nat wd) Cell)"
      and wh: "w b = wd" "h b = ht" "0 < wd" "0 < ht"
      by (auto simp: Board_init_def Let_def split: if_splits)
    then have "wf_board b" by (simp add: wf_board_def)
    from locate_in_bounds[OF this xy] xy show ?thesis
      by (simp add: cell_of_def cell_at_def g wh in_bounds_def Cell_def)
  qed
  show ?thesis
    using cells by (auto simp: Board_init_def Let_def)
qed

text \<open>The theorem at a 3 by 3 board with one mine.\<close>

theorem Board_init_outcome_witness:
  "Board_init 3 3 1 =
     Inr \<lparr>w = 3, h = 3, mine_target = 1,
          grid = replicate 3 (replicate 3 \<lparr>mine = False, revealed = False, flagged = False, adj = 0\<rparr>),
          mines_placed = False, revealed_count = 0\<rparr> \<and>
   (\<exists>b. Board_init 3 3 1 = Inr b \<and>
      cell_of b (2, 1) = \<lparr>mine = False, revealed = False, flagged = False, adj = 0\<rparr>)"
proof -
  have e: "Board_init 3 3 1 =
     Inr \<lparr>w = 3, h = 3, mine_target = 1,
          grid = replicate 3 (replicate 3 \<lparr>mine = False, revealed = False, flagged = False, adj = 0\<rparr>),
          mines_placed = False, revealed_count = 0\<rparr>"
    by (simp add: Board_init_def Cell_def)
  have "in_bounds \<lparr>w = 3, h = 3, mine_target = 1,
          grid = replicate 3 (replicate 3 \<lparr>mine = False, revealed = False, flagged = False, adj = 0\<rparr>),
          mines_placed = False, revealed_count = 0\<rparr> 2 1"
    by (simp add: in_bounds_def)
  with Board_init_outcome[of 3 3 1] e show ?thesis by auto
qed

text \<open>
  C7 as stated fails: with width 0 the mine target 3 is outside \<open>(0, 0 * 5 - 1]\<close>, yet
  the constructor raises the dimension error, not the mine count error.
\<close>

theorem Board_init_mine_count_counterexample:
  "Board_init 0 5 3 = Inl InvalidDimensions \<and>
   Board_init 0 5 3 \<noteq> Inl (InvalidMineCount (0 * 5 - 1)) \<and>
   \<not> (0 < (3::int) \<and> (3::int) \<le> 0 * 5 - 1)"
  by (simp add: Board_init_def)

subsection \<open>C10: the difficulty presets\<close>

text \<open>
  C10. The preset table holds easy = 9 by 9 with 10 mines, medium = 16 by 16 with 40,
  hard = 30 by 16 with 99 and too hard = 30 by 24 with 180. Every entry of the table
  has a positive width and height and a mine count in \<open>(0, width * height - 1]\<close>, so
  that \<open>Board_init\<close> on it returns a board. \<open>get_difficulty\<close> returns every entry of the
  table (at its key) and nothing but entries of the table, so that \<open>Board_init\<close> on a
  preset it returns never fails.
\<close>

theorem presets_construct:
  "map snd LEVELS =
     [\<lparr>name = ''easy'', width = 9, height = 9, mines = 10\<rparr>,
      \<lparr>name = ''medium'', width = 16, height = 16, mines = 40\<rparr>,
      \<lparr>name = ''hard'', width = 30, height = 16, mines = 99\<rparr>,
      \<lparr>name = ''too hard'', width = 30, height = 24, mines = 180\<rparr>] \<and>
   (\<forall>d \<in> snd ` set LEVELS.
      0 < width d \<and> 0 < height d \<and> 0 < mines d \<and> mines d \<le> width d * height d - 1 \<and>
      Board_init (width d) (height d) (mines d) \<noteq> Inl InvalidDimensions \<and>
      Board_init (width d) (height d) (mines d) \<noteq>
        Inl (InvalidMineCount (width d * height d - 1)) \<and>
      (\<exists>b. Board_init (width d) (height d) (mines d) = Inr b)) \<and>
   (\<forall>kd \<in> set LEVELS. get_difficulty (fst kd) = Inr (snd kd)) \<and>
   (\<forall>nm d. get_difficulty nm = Inr d \<longrightarrow>
      d \<in> snd ` set LEVELS \<and>
      0 < width d \<and> 0 < height d \<and> 0 < mines d \<and> mines d \<le> width d * height d - 1 \<and>
      (\<exists>b. Board_init (width d) (height d) (mines d) = Inr b))"
proof -
  have entries: "0 < width d \<and> 0 < height d \<and> 0 < mines d \<and>
      mines d \<le> width d * height d - 1 \<and>
      Board_init (width d) (height d) (mines d) \<noteq> Inl InvalidDimensions \<and>
      Board_init (width d) (height d) (mines d) \<noteq>
        Inl (InvalidMineCount (width d * height d - 1)) \<and>
      (\<exists>b. Board_init (width d) (height d) (mines d) = Inr b)"
    if "d \<in> snd ` set LEVELS" for d
    using that by (auto simp: LEVELS_def Board_init_def)
  have keys: "get_difficulty ''easy'' = Inr \<lparr>name = ''easy'', width = 9, height = 9, mines = 10\<rparr>"
    "get_difficulty ''medium'' = Inr \<lparr>name = ''medium'', width = 16, height = 16, mines = 40\<rparr>"
    "get_difficulty ''hard'' = Inr \<lparr>name = ''hard'', width = 30, height = 16, mines = 99\<rparr>"
    "get_difficulty ''too hard'' =
       Inr \<lparr>name = ''too hard'', width = 30, height = 24, mines = 180\<rparr>"
    by code_simp+
  have lookup: "\<forall>kd \<in> set LEVELS. get_difficulty (fst kd) = Inr (snd kd)"
    using keys by (simp add: LEVELS_def)
  have returned: "d \<in> snd ` set LEVELS" if "get_difficulty nm = Inr d" for nm d
  proof -
    from that obtain key where "map_of LEVELS key = Some d"
      by (auto simp: get_difficulty_def Let_def split: option.splits)
    then have "(key, d) \<in> set LEVELS" by (rule map_of_SomeD)
    then show ?thesis by force
  qed
  have table: "map snd LEVELS =
     [\<lparr>name = ''easy'', width = 9, height = 9, mines = 10\<rparr>,
      \<lparr>name = ''medium'', width = 16, height = 16, mines = 40\<rparr>,
      \<lparr>name = ''hard'', width = 30, height = 16, mines = 99\<rparr>,
      \<lparr>name = ''too hard'', width = 30, height = 24, mines = 180\<rparr>]"
    by (simp add: LEVELS_def)
  show ?thesis
  proof (intro conjI ballI allI impI)
    show "map snd LEVELS =
     [\<lparr>name = ''easy'', width = 9, height = 9, mines = 10\<rparr>,
      \<lparr>name = ''medium'', width = 16, height = 16, mines = 40\<rparr>,
      \<lparr>name = ''hard'', width = 30, height = 16, mines = 99\<rparr>,
      \<lparr>name = ''too hard'', width = 30, height = 24, mines = 180\<rparr>]"
      by (rule table)
  qed (use entries lookup returned in \<open>simp_all\<close>)
qed

text \<open>
  The theorem at each of the four entries, and at names that normalise to their keys:
  with capitals, an underscore, hyphens, surrounding and repeated blanks, and a
  no-break space.
\<close>

theorem presets_construct_witness:
  "\<lparr>name = ''easy'', width = 9, height = 9, mines = 10\<rparr> \<in> snd ` set LEVELS \<and>
   (\<exists>b. Board_init 9 9 10 = Inr b) \<and>
   \<lparr>name = ''medium'', width = 16, height = 16, mines = 40\<rparr> \<in> snd ` set LEVELS \<and>
   (\<exists>b. Board_init 16 16 40 = Inr b) \<and>
   \<lparr>name = ''hard'', width = 30, height = 16, mines = 99\<rparr> \<in> snd ` set LEVELS \<and>
   (\<exists>b. Board_init 30 16 99 = Inr b) \<and>
   \<lparr>name = ''too hard'', width = 30, height = 24, mines = 180\<rparr> \<in> snd ` set LEVELS \<and>
   (\<exists>b. Board_init 30 24 180 = Inr b) \<and>
   (''easy'', \<lparr>name = ''easy'', width = 9, height = 9, mines = 10\<rparr>) \<in> set LEVELS \<and>
   get_difficulty ''easy'' = Inr \<lparr>name = ''easy'', width = 9, height = 9, mines = 10\<rparr> \<and>
   get_difficulty ''Too_Hard'' =
     Inr \<lparr>name = ''too hard'', width = 30, height = 24, mines = 180\<rparr> \<and>
   get_difficulty ''  too--  HARD '' =
     Inr \<lparr>name = ''too hard'', width = 30, height = 24, mines = 180\<rparr> \<and>
   get_difficulty (''easy'' @ [CHR 0xA0]) =
     Inr \<lparr>name = ''easy'', width = 9, height = 9, mines = 10\<rparr> \<and>
   get_difficulty ''MEDIUM'' = Inr \<lparr>name = ''medium'', width = 16, height = 16, mines = 40\<rparr>"
proof -
  have m: "\<lparr>name = ''easy'', width = 9, height = 9, mines = 10\<rparr> \<in> snd ` set LEVELS"
    "\<lparr>name = ''medium'', width = 16, height = 16, mines = 40\<rparr> \<in> snd ` set LEVELS"
    "\<lparr>name = ''hard'', width = 30, height = 16, mines = 99\<rparr> \<in> snd ` set LEVELS"
    "\<lparr>name = ''too hard'', width = 30, height = 24, mines = 180\<rparr> \<in> snd ` set LEVELS"
    "(''easy'', \<lparr>name = ''easy'', width = 9, height = 9, mines = 10\<rparr>) \<in> set LEVELS"
    by (simp_all add: LEVELS_def)
  have g: "get_difficulty ''Too_Hard'' =
     Inr \<lparr>name = ''too hard'', width = 30, height = 24, mines = 180\<rparr>"
    "get_difficulty ''  too--  HARD '' =
     Inr \<lparr>name = ''too hard'', width = 30, height = 24, mines = 180\<rparr>"
    "get_difficulty (''easy'' @ [CHR 0xA0]) =
     Inr \<lparr>name = ''easy'', width = 9, height = 9, mines = 10\<rparr>"
    "get_difficulty ''MEDIUM'' = Inr \<lparr>name = ''medium'', width = 16, height = 16, mines = 40\<rparr>"
    by code_simp+
  from presets_construct
  have b: "\<forall>d \<in> snd ` set LEVELS. \<exists>b. Board_init (width d) (height d) (mines d) = Inr b"
    and k: "\<forall>kd \<in> set LEVELS. get_difficulty (fst kd) = Inr (snd kd)"
    by blast+
  from b m(1) have "\<exists>b. Board_init 9 9 10 = Inr b" by fastforce
  moreover from b m(2) have "\<exists>b. Board_init 16 16 40 = Inr b" by fastforce
  moreover from b m(3) have "\<exists>b. Board_init 30 16 99 = Inr b" by fastforce
  moreover from b m(4) have "\<exists>b. Board_init 30 24 180 = Inr b" by fastforce
  moreover from k m(5)
  have "get_difficulty ''easy'' = Inr \<lparr>name = ''easy'', width = 9, height = 9, mines = 10\<rparr>"
    by fastforce
  ultimately show ?thesis using m g by simp
qed

subsection \<open>C5: rejected moves\<close>

text \<open>
  C5. On every reachable board: \<open>reveal\<close> and \<open>toggle_flag\<close> at an out-of-bounds
  coordinate return the rejection value; \<open>reveal\<close> of a flagged in-bounds cell returns
  \<open>(False, False)\<close>; \<open>toggle_flag\<close> of a revealed in-bounds cell returns \<open>False\<close>.
  In each case the board returned is the board given, whatever the sample \<open>ms\<close>: no
  cell, counter or flag changes, and no mines are placed.
\<close>

theorem rejected_moves:
  assumes "reachable b"
  shows "(\<not> in_bounds b x y \<longrightarrow>
            reveal ms b x y = Inr (b, False, False) \<and> toggle_flag b x y = Inr (b, False)) \<and>
         (in_bounds b x y \<and> flagged (cell_of b (x, y)) \<longrightarrow>
            reveal ms b x y = Inr (b, False, False)) \<and>
         (in_bounds b x y \<and> revealed (cell_of b (x, y)) \<longrightarrow>
            toggle_flag b x y = Inr (b, False))"
proof -
  from reachable_inv[OF assms] have "wf_board b" by (simp add: board_inv_def)
  then show ?thesis
    by (simp add: reveal_out_of_bounds reveal_flagged toggle_flag_out_of_bounds toggle_flag_revealed)
qed


text \<open>The theorem on the example board, at the four kinds of rejected move.\<close>

theorem rejected_moves_witness:
  "reachable ex_open \<and>
   reveal [] ex_open 3 0 = Inr (ex_open, False, False) \<and>
   toggle_flag ex_open 0 (-1) = Inr (ex_open, False) \<and>
   reveal [] ex_open 2 2 = Inr (ex_open, False, False) \<and>
   toggle_flag ex_open 1 1 = Inr (ex_open, False)"
proof -
  have "\<not> in_bounds ex_open 3 0" "\<not> in_bounds ex_open 0 (-1)"
    "in_bounds ex_open 2 2 \<and> flagged (cell_of ex_open (2, 2))"
    "in_bounds ex_open 1 1 \<and> revealed (cell_of ex_open (1, 1))"
    by code_simp+
  with rejected_moves[OF ex_open_reachable, of 3 0 "[]"]
    rejected_moves[OF ex_open_reachable, of 0 "-1" "[]"]
    rejected_moves[OF ex_open_reachable, of 2 2 "[]"]
    rejected_moves[OF ex_open_reachable, of 1 1 "[]"]
    ex_open_reachable
  show ?thesis by simp
qed


subsection \<open>C6: revealing a revealed cell\<close>

text \<open>
  C6. On every reachable board, \<open>reveal\<close> at an in-bounds cell that is revealed and
  not flagged returns \<open>(True, False)\<close> and the board given, unchanged.
\<close>

theorem reveal_idempotent:
  assumes "reachable b" "in_bounds b x y"
    and "revealed (cell_of b (x, y))" "\<not> flagged (cell_of b (x, y))"
  shows "reveal ms b x y = Inr (b, True, False)"
proof -
  from reachable_inv[OF assms(1)] have "wf_board b" by (simp add: board_inv_def)
  from reveal_revealed[OF this assms(2) assms(4) assms(3)] show ?thesis .
qed


text \<open>The theorem on the example board, at the revealed cell \<open>(1, 1)\<close>.\<close>

theorem reveal_idempotent_witness:
  "reachable ex_open \<and> in_bounds ex_open 1 1 \<and> revealed (cell_of ex_open (1, 1)) \<and>
   \<not> flagged (cell_of ex_open (1, 1)) \<and> reveal [] ex_open 1 1 = Inr (ex_open, True, False)"
proof -
  have h: "in_bounds ex_open 1 1" "revealed (cell_of ex_open (1, 1))"
    "\<not> flagged (cell_of ex_open (1, 1))"
    by code_simp+
  from reveal_idempotent[OF ex_open_reachable h] ex_open_reachable h show ?thesis by simp
qed

subsection \<open>C1: the win predicate and the reveal of a mine\<close>

text \<open>
  C1, as amended. \<open>all_safe_revealed\<close> holds exactly when \<open>revealed_count\<close> equals
  \<open>w * h - mine_target\<close>. On a reachable board, \<open>reveal\<close> of an in-bounds mine cell that
  is neither flagged nor revealed returns \<open>(True, True)\<close>, marks that one cell revealed,
  changes nothing else but \<open>revealed_count\<close>, which it increments by exactly one; after
  the call \<open>all_safe_revealed\<close> holds exactly when the count before the call was one
  short of \<open>w * h - mine_target\<close>.
\<close>

theorem reveal_mine_counted:
  assumes "reachable b" "in_bounds b x y"
    and "mine (cell_of b (x, y))" "\<not> flagged (cell_of b (x, y))" "\<not> revealed (cell_of b (x, y))"
  shows "(all_safe_revealed b \<longleftrightarrow> revealed_count b = w b * h b - mine_target b) \<and>
         (\<exists>b'. reveal ms b x y = Inr (b', True, True) \<and>
            b' = b\<lparr>grid := put_cell (grid b) (nat y, nat x) ((cell_of b (x, y))\<lparr>revealed := True\<rparr>),
                   revealed_count := revealed_count b + 1\<rparr> \<and>
            revealed_count b' = revealed_count b + 1 \<and>
            (all_safe_revealed b' \<longleftrightarrow> revealed_count b + 1 = w b * h b - mine_target b))"
proof -
  from reachable_inv[OF assms(1)] have wf: "wf_board b" by (simp add: board_inv_def)
  have mp: "mines_placed b" by (rule reachable_mine_placed[OF assms(1,2,3)])
  have "reveal ms b x y =
      Inr (b\<lparr>grid := put_cell (grid b) (nat y, nat x) ((cell_of b (x, y))\<lparr>revealed := True\<rparr>),
             revealed_count := revealed_count b + 1\<rparr>, True, True)"
    using assms(2-5) mp
    by (simp add: reveal_unfold locate_in_bounds[OF wf assms(2)] reveal_placed_def cell_of_def)
  then show ?thesis
    by (simp add: all_safe_revealed_def)
qed


text \<open>The theorem on the 2 by 2 board, at the mine \<open>(1, 0)\<close>.\<close>

theorem reveal_mine_counted_witness:
  "reachable ex2_open \<and> in_bounds ex2_open 1 0 \<and> mine (cell_of ex2_open (1, 0)) \<and>
   \<not> flagged (cell_of ex2_open (1, 0)) \<and> \<not> revealed (cell_of ex2_open (1, 0)) \<and>
   (\<exists>b'. reveal [] ex2_open 1 0 = Inr (b', True, True) \<and>
      revealed_count b' = revealed_count ex2_open + 1)"
proof -
  have h: "in_bounds ex2_open 1 0" "mine (cell_of ex2_open (1, 0))"
    "\<not> flagged (cell_of ex2_open (1, 0))" "\<not> revealed (cell_of ex2_open (1, 0))"
    by code_simp+
  from reveal_mine_counted[OF ex2_open_reachable h, of "[]"] ex2_open_reachable h
  show ?thesis by auto
qed


text \<open>
  C1 as stated fails: on the reachable 2 by 2 board with one safe cell revealed, the
  reveal of the mine at \<open>(1, 0)\<close> returns \<open>(True, True)\<close>, takes \<open>revealed_count\<close> from 1
  to 2, and \<open>all_safe_revealed\<close> from false to true.
\<close>

theorem reveal_mine_counterexample:
  "reachable ex2_open \<and> in_bounds ex2_open 1 0 \<and> mine (cell_of ex2_open (1, 0)) \<and>
   \<not> flagged (cell_of ex2_open (1, 0)) \<and> \<not> revealed (cell_of ex2_open (1, 0)) \<and>
   reveal [] ex2_open 1 0 = Inr (ex2_hit, True, True) \<and>
   revealed_count ex2_open = 1 \<and> revealed_count ex2_hit = 2 \<and>
   \<not> all_safe_revealed ex2_open \<and> all_safe_revealed ex2_hit"
proof -
  have "in_bounds ex2_open 1 0 \<and> mine (cell_of ex2_open (1, 0)) \<and>
   \<not> flagged (cell_of ex2_open (1, 0)) \<and> \<not> revealed (cell_of ex2_open (1, 0)) \<and>
   reveal [] ex2_open 1 0 = Inr (ex2_hit, True, True) \<and>
   revealed_count ex2_open = 1 \<and> revealed_count ex2_hit = 2 \<and>
   \<not> all_safe_revealed ex2_open \<and> all_safe_revealed ex2_hit"
    by code_simp
  with ex2_open_reachable show ?thesis by simp
qed

subsection \<open>C3: mine placement\<close>

text \<open>
  C3. On a reachable board whose mines are not yet placed, for every in-bounds clicked
  cell and every result \<open>ms\<close> that \<open>random.sample\<close> can return on the candidate pool,
  \<open>place_mines_excluding\<close> returns a board with \<open>mines_placed\<close> set, exactly
  \<open>mine_target\<close> mine cells, and on every cell that is not a mine an \<open>adj\<close> equal to the
  number of its in-bounds Moore neighbours that are mines.
\<close>

theorem place_mines_excluding_correct:
  assumes "reachable b" "\<not> mines_placed b" "in_bounds b sx sy"
    and "is_sample (candidates b sx sy) (mine_target b) ms"
  shows "\<exists>b'. place_mines_excluding ms b sx sy = Inr b' \<and> mines_placed b' \<and>
           mine_target b' = mine_target b \<and> mine_count b' = mine_target b' \<and>
           (\<forall>x y. in_bounds b' x y \<and> \<not> mine (cell_of b' (x, y)) \<longrightarrow>
              adj (cell_of b' (x, y)) =
                int (card {(nx, ny). in_bounds b' nx ny \<and> \<bar>nx - x\<bar> \<le> 1 \<and> \<bar>ny - y\<bar> \<le> 1 \<and>
                             (nx, ny) \<noteq> (x, y) \<and> mine (cell_of b' (nx, ny))}))"
proof -
  from reachable_inv[OF assms(1)] assms(2)
  have wf: "wf_board b" and nm: "no_mines b"
    and mt: "0 \<le> mine_target b" "mine_target b \<le> w b * h b - 1"
    by (simp_all add: board_inv_def)
  from place_mines_excluding_spec[OF wf nm assms(3) mt assms(4)] obtain b' where
    res: "place_mines_excluding ms b sx sy = Inr b'"
    and fr: "frame (b\<lparr>mines_placed := True\<rparr>) b'"
    and cells: "\<And>x y. in_bounds b x y \<Longrightarrow>
              mine (cell_of b' (x, y)) = ((x, y) \<in> set ms) \<and>
              adj (cell_of b' (x, y)) =
                (if (x, y) \<in> set ms then adj (cell_of b (x, y)) else mined_count b' (x, y))"
    by blast
  have ib: "in_bounds b' x y = in_bounds b x y" for x y
    using fr by (simp add: in_bounds_def frame_def)
  have ac: "all_coords b' = all_coords b" using fr by (simp add: all_coords_def frame_def)
  have sub: "set ms \<subseteq> set (all_coords b')"
    using assms(4) candidates_subset[of b sx sy] by (auto simp: is_sample_def ac)
  have dist: "distinct ms" using assms(4) by (simp add: is_sample_def)
  have "mine_count b' = int (length ms)"
    using dist sub by (rule mine_count_sample) (simp add: ib cells)
  then have "mine_count b' = mine_target b'"
    using assms(4) fr by (simp add: is_sample_def frame_def)
  moreover have "adj (cell_of b' (x, y)) =
                int (card {(nx, ny). in_bounds b' nx ny \<and> \<bar>nx - x\<bar> \<le> 1 \<and> \<bar>ny - y\<bar> \<le> 1 \<and>
                             (nx, ny) \<noteq> (x, y) \<and> mine (cell_of b' (nx, ny))})"
    if "in_bounds b' x y" "\<not> mine (cell_of b' (x, y))" for x y
  proof -
    have "adj (cell_of b' (x, y)) = mined_count b' (x, y)"
      using that cells[of x y] by (simp add: ib)
    then show ?thesis by (simp only: mined_count_card)
  qed
  ultimately show ?thesis using res fr by (auto simp: frame_def)
qed


text \<open>The theorem on the 3 by 3 board, with the mine sampled at \<open>(2, 2)\<close>.\<close>

theorem place_mines_excluding_correct_witness:
  "reachable ex_flagged \<and> \<not> mines_placed ex_flagged \<and> in_bounds ex_flagged 0 0 \<and>
   is_sample (candidates ex_flagged 0 0) (mine_target ex_flagged) [(2, 2)] \<and>
   place_mines_excluding [(2, 2)] ex_flagged 0 0 = Inr ex_placed \<and> mines_placed ex_placed \<and>
   mine_count ex_placed = 1 \<and> in_bounds ex_placed 1 1 \<and> \<not> mine (cell_of ex_placed (1, 1)) \<and>
   adj (cell_of ex_placed (1, 1)) =
     int (card {(nx, ny). in_bounds ex_placed nx ny \<and> \<bar>nx - 1\<bar> \<le> 1 \<and> \<bar>ny - 1\<bar> \<le> 1 \<and>
                  (nx, ny) \<noteq> (1, 1) \<and> mine (cell_of ex_placed (nx, ny))})"
proof -
  have h: "\<not> mines_placed ex_flagged" "in_bounds ex_flagged 0 0" by code_simp+
  have t: "mine_target ex_flagged = 1" "in_bounds ex_placed 1 1" "\<not> mine (cell_of ex_placed (1, 1))"
    by code_simp+
  from place_mines_excluding_correct[OF ex_flagged_reachable h ex_sample] t
    ex_flagged_reachable h ex_sample ex_placed_step
  show ?thesis by auto
qed


subsection \<open>C4: the first click is safe\<close>

text \<open>
  C4. On a reachable board whose mines are not yet placed, for every in-bounds clicked
  cell: a sample of \<open>mine_target\<close> candidates exists (placement cannot fail), and for
  every sample the placement succeeds, the clicked cell is not a mine, and when
  \<open>mine_target \<le> w * h - 9\<close> no neighbour of the clicked cell is a mine.
\<close>

theorem first_click_safe:
  assumes "reachable b" "\<not> mines_placed b" "in_bounds b sx sy"
  shows "(\<exists>ms. is_sample (candidates b sx sy) (mine_target b) ms) \<and>
         (\<forall>ms. is_sample (candidates b sx sy) (mine_target b) ms \<longrightarrow>
            (\<exists>b'. place_mines_excluding ms b sx sy = Inr b' \<and>
               \<not> mine (cell_of b' (sx, sy)) \<and>
               (mine_target b \<le> w b * h b - 9 \<longrightarrow>
                  (\<forall>n \<in> set (neighbors b sx sy). \<not> mine (cell_of b' n)))))"
proof -
  from reachable_inv[OF assms(1)] assms(2)
  have wf: "wf_board b" and nm: "no_mines b"
    and mt: "0 \<le> mine_target b" "mine_target b \<le> w b * h b - 1"
    by (simp_all add: board_inv_def)
  from wf have pos: "0 < w b" "0 < h b" by (simp_all add: wf_board_def)
  have "is_sample (candidates b sx sy) (mine_target b) (take (nat (mine_target b)) (candidates b sx sy))"
    using mt(1) candidates_enough[OF pos assms(3) mt(2)] distinct_candidates
    by (rule is_sample_take)
  then have ex: "\<exists>ms. is_sample (candidates b sx sy) (mine_target b) ms" ..
  have "\<exists>b'. place_mines_excluding ms b sx sy = Inr b' \<and>
               \<not> mine (cell_of b' (sx, sy)) \<and>
               (mine_target b \<le> w b * h b - 9 \<longrightarrow>
                  (\<forall>n \<in> set (neighbors b sx sy). \<not> mine (cell_of b' n)))"
    if smp: "is_sample (candidates b sx sy) (mine_target b) ms" for ms
  proof -
    from place_mines_excluding_spec[OF wf nm assms(3) mt smp] obtain b' where
      res: "place_mines_excluding ms b sx sy = Inr b'"
      and cells: "\<And>x y. in_bounds b x y \<Longrightarrow> mine (cell_of b' (x, y)) = ((x, y) \<in> set ms)"
      by blast
    have sub: "set ms \<subseteq> set (candidates b sx sy)" using smp by (simp add: is_sample_def)
    have "(sx, sy) \<notin> set ms" using sub candidates_subset[of b sx sy] by auto
    then have clicked: "\<not> mine (cell_of b' (sx, sy))" by (simp add: cells[OF assms(3)])
    have "\<not> mine (cell_of b' n)"
      if small: "mine_target b \<le> w b * h b - 9" and n: "n \<in> set (neighbors b sx sy)" for n
    proof -
      from candidates_safe_zone[OF pos small, of sx sy] sub n have "n \<notin> set ms" by auto
      moreover have "in_bounds b (fst n) (snd n)" using n by (rule neighbors_in_bounds)
      ultimately show ?thesis using cells[of "fst n" "snd n"] by simp
    qed
    with res clicked show ?thesis by blast
  qed
  with ex show ?thesis by blast
qed

text \<open>
  The theorem on the 4 by 3 board with two mines, where the safe zone fits, and on the
  2 by 2 board with two mines, where it does not: there the clicked cell is safe and
  its neighbour \<open>(1, 0)\<close> is a mine.
\<close>

theorem first_click_safe_witness:
  "reachable ex4_fresh \<and> \<not> mines_placed ex4_fresh \<and> in_bounds ex4_fresh 1 1 \<and>
   is_sample (candidates ex4_fresh 1 1) (mine_target ex4_fresh) [(3, 0), (3, 2)] \<and>
   mine_target ex4_fresh \<le> w ex4_fresh * h ex4_fresh - 9 \<and>
   place_mines_excluding [(3, 0), (3, 2)] ex4_fresh 1 1 = Inr ex4_placed \<and>
   \<not> mine (cell_of ex4_placed (1, 1)) \<and>
   list_all (\<lambda>n. \<not> mine (cell_of ex4_placed n)) (neighbors ex4_fresh 1 1) \<and>
   reachable ex2_fresh \<and> \<not> mines_placed ex2_fresh \<and> in_bounds ex2_fresh 0 0 \<and>
   is_sample (candidates ex2_fresh 0 0) (mine_target ex2_fresh) [(1, 0), (0, 1)] \<and>
   \<not> mine_target ex2_fresh \<le> w ex2_fresh * h ex2_fresh - 9 \<and>
   place_mines_excluding [(1, 0), (0, 1)] ex2_fresh 0 0 = Inr ex2_placed \<and>
   \<not> mine (cell_of ex2_placed (0, 0)) \<and> mine (cell_of ex2_placed (1, 0))"
proof -
  have h4: "\<not> mines_placed ex4_fresh" "in_bounds ex4_fresh 1 1" by code_simp+
  have s4: "mine_target ex4_fresh \<le> w ex4_fresh * h ex4_fresh - 9" by code_simp
  have h2: "\<not> mines_placed ex2_fresh" "in_bounds ex2_fresh 0 0" by code_simp+
  have s2: "\<not> mine_target ex2_fresh \<le> w ex2_fresh * h ex2_fresh - 9"
    "mine (cell_of ex2_placed (1, 0))" by code_simp+
  from first_click_safe[OF ex4_fresh_reachable h4] ex4_sample ex4_placed_step s4
  have "\<not> mine (cell_of ex4_placed (1, 1)) \<and>
    list_all (\<lambda>n. \<not> mine (cell_of ex4_placed n)) (neighbors ex4_fresh 1 1)"
    by (fastforce simp: list_all_iff)
  moreover from first_click_safe[OF ex2_fresh_reachable h2] ex2_sample ex2_placed_step
  have "\<not> mine (cell_of ex2_placed (0, 0))" by fastforce
  ultimately show ?thesis
    using ex4_fresh_reachable h4 ex4_sample ex4_placed_step s4
      ex2_fresh_reachable h2 ex2_sample ex2_placed_step s2
    by simp
qed

subsection \<open>C2: the flood fill\<close>

text \<open>
  C2. On a well-formed board (every reachable board is one) with the mines placed,
  \<open>reveal\<close> of an in-bounds cell that is not flagged, not revealed, not a mine and has
  \<open>adj = 0\<close> returns \<open>(True, False)\<close>. The cells it reveals are exactly the flood-fill
  region \<open>flood_from b {(x, y)}\<close> of the clicked cell: the region grows only through
  cells with \<open>adj = 0\<close>, so a cell with \<open>adj > 0\<close> next to it is revealed and not
  expanded through. Every cell of the region was unrevealed, unflagged and not a mine;
  every in-bounds cell keeps its \<open>mine\<close>, \<open>flagged\<close> and \<open>adj\<close>, and its \<open>revealed\<close>
  outside the region; the dimensions, the mine target, the placement flag and the
  shape of the grid are unchanged (\<open>frame\<close>); and \<open>revealed_count\<close> grows by the number
  of cells of the region, which are the newly revealed cells.
\<close>

theorem reveal_flood_fill:
  assumes "wf_board b" "mines_placed b" "in_bounds b x y"
    and "\<not> flagged (cell_of b (x, y))" "\<not> revealed (cell_of b (x, y))"
    and "\<not> mine (cell_of b (x, y))" "adj (cell_of b (x, y)) = 0"
  shows "\<exists>b'. reveal ms b x y = Inr (b', True, False) \<and> frame b b' \<and>
           (\<forall>c. inside b c \<longrightarrow>
              cell_of b' c = (if c \<in> flood_from b {(x, y)}
                              then (cell_of b c)\<lparr>revealed := True\<rparr> else cell_of b c)) \<and>
           (\<forall>c \<in> flood_from b {(x, y)}.
              inside b c \<and> \<not> revealed (cell_of b c) \<and> \<not> flagged (cell_of b c) \<and>
              \<not> mine (cell_of b c)) \<and>
           newly b b' = flood_from b {(x, y)} \<and>
           revealed_count b' = revealed_count b + int (card (flood_from b {(x, y)}))"
proof -
  let ?F = "flood_from b {(x, y)}"
  have s: "inside b (x, y)" using assms(3) by (simp add: inside_def)
  have es: "eligible b (x, y)" using assms(4-6) by (simp add: eligible_def)
  have reg: "reveal_region b (x, y) = ?F" using assms(6,7) by (simp add: reveal_region_def)
  from reveal_placed_spec[OF assms(1,3,5)] obtain b' where
    res: "reveal_placed b (nat y, nat x) x y = Inr (b', True, mine (cell_of b (x, y)))"
    and fr: "frame b b'"
    and cells: "\<And>c. inside b c \<Longrightarrow>
              cell_of b' c = (if c \<in> ?F then (cell_of b c)\<lparr>revealed := True\<rparr> else cell_of b c)"
    and cnt: "revealed_count b' = revealed_count b + int (card (newly b b'))"
    unfolding reg by blast
  have r: "reveal ms b x y = Inr (b', True, False)"
    using res assms(6) by (simp add: reveal_open[OF assms(1,3,2,4,5)])
  have F: "inside b c \<and> \<not> revealed (cell_of b c) \<and> \<not> flagged (cell_of b c) \<and> \<not> mine (cell_of b c)"
    if "c \<in> ?F" for c
    using flood_from_eligible[OF that s es] by (simp add: eligible_def)
  have nw: "newly b b' = ?F"
  proof (rule set_eqI)
    fix c show "c \<in> newly b b' \<longleftrightarrow> c \<in> ?F"
    proof (cases "c \<in> ?F")
      case True
      then show ?thesis using F[OF True] cells[of c] by (simp add: newly_def)
    next
      case False
      have "revealed (cell_of b' c) = revealed (cell_of b c)" if "inside b c"
        using cells[OF that] False by simp
      then show ?thesis using False by (auto simp: newly_def)
    qed
  qed
  show ?thesis
  proof (intro exI conjI allI impI ballI)
    show "reveal ms b x y = Inr (b', True, False)" by (rule r)
    show "frame b b'" by (rule fr)
    show "newly b b' = ?F" by (rule nw)
    show "revealed_count b' = revealed_count b + int (card ?F)" using cnt nw by simp
  qed (use cells F in auto)
qed


text \<open>
  The theorem on the 3 by 3 board with the mine at \<open>(2, 2)\<close>: the reveal of \<open>(0, 0)\<close>
  reveals the eight other cells and not the mine.
\<close>

theorem reveal_flood_fill_witness:
  "wf_board ex_placed \<and> mines_placed ex_placed \<and> in_bounds ex_placed 0 0 \<and>
   \<not> flagged (cell_of ex_placed (0, 0)) \<and> \<not> revealed (cell_of ex_placed (0, 0)) \<and>
   \<not> mine (cell_of ex_placed (0, 0)) \<and> adj (cell_of ex_placed (0, 0)) = 0 \<and>
   reveal [] ex_placed 0 0 = Inr (ex_open, True, False) \<and>
   newly ex_placed ex_open = flood_from ex_placed {(0, 0)} \<and>
   card (flood_from ex_placed {(0, 0)}) = 8 \<and> (2, 2) \<notin> flood_from ex_placed {(0, 0)}"
proof -
  have h: "mines_placed ex_placed" "in_bounds ex_placed 0 0"
    "\<not> flagged (cell_of ex_placed (0, 0))" "\<not> revealed (cell_of ex_placed (0, 0))"
    "\<not> mine (cell_of ex_placed (0, 0))" "adj (cell_of ex_placed (0, 0)) = 0"
    by code_simp+
  have e: "reveal [] ex_placed 0 0 = Inr (ex_open, True, False)" by code_simp
  have c: "revealed_count ex_open = 8" "revealed_count ex_placed = 0"
    "mine (cell_of ex_placed (2, 2))" by code_simp+
  from reveal_flood_fill[OF ex_placed_wf h, of "[]"] e
  have "newly ex_placed ex_open = flood_from ex_placed {(0, 0)}"
    and "revealed_count ex_open = revealed_count ex_placed + int (card (flood_from ex_placed {(0, 0)}))"
    and "\<forall>c \<in> flood_from ex_placed {(0, 0)}. \<not> mine (cell_of ex_placed c)"
    by auto
  with c ex_placed_wf h e show ?thesis by auto
qed

subsection \<open>C9: the flood fill terminates\<close>

text \<open>
  C9. The loop \<open>flood_loop\<close> is defined by recursion with a termination proof: the
  number of unrevealed cells plus the height of the stack decreases with every pass.
  Stated with fuel, one unit per pass (that is, per pop, and every pushed cell is
  popped once): on every board and stack, as many passes as there are unrevealed cells
  and stacked cells suffice; one pass pushes no more cells than it turns from
  unrevealed to revealed; on a well-formed board, the loop that \<open>reveal\<close> starts at an
  unrevealed in-bounds cell ends within \<open>w * h\<close> passes and returns a board; and
  \<open>reveal\<close> returns a result on every reachable board, for every sample that
  \<open>random.sample\<close> can return when the mines are still to be placed.
\<close>

theorem flood_fill_terminates:
  "(unrevealed (grid b) + length st \<le> n \<longrightarrow> flood_fuel n b st v = Some (flood_loop b st v)) \<and>
   (flood_neighbors b st v ns = Inr (b1, st1, v1) \<longrightarrow>
      unrevealed (grid b1) + length st1 \<le> unrevealed (grid b) + length st) \<and>
   (wf_board b \<and> in_bounds b x y \<and> \<not> revealed (cell_of b (x, y)) \<longrightarrow>
      (\<exists>b'. flood_fuel (nat (w b * h b))
              (b\<lparr>grid := put_cell (grid b) (nat y, nat x) ((cell_of b (x, y))\<lparr>revealed := True\<rparr>),
                 revealed_count := revealed_count b + 1\<rparr>) [(x, y)] {(x, y)} = Some (Inr b') \<and>
            flood_loop
              (b\<lparr>grid := put_cell (grid b) (nat y, nat x) ((cell_of b (x, y))\<lparr>revealed := True\<rparr>),
                 revealed_count := revealed_count b + 1\<rparr>) [(x, y)] {(x, y)} = Inr b')) \<and>
   (reachable b \<and> (mines_placed b \<or> is_sample (candidates b x y) (mine_target b) ms) \<longrightarrow>
      (\<exists>b' ok hit. reveal ms b x y = Inr (b', ok, hit)))"
proof -
  let ?b3 = "b\<lparr>grid := put_cell (grid b) (nat y, nat x) ((cell_of b (x, y))\<lparr>revealed := True\<rparr>),
                revealed_count := revealed_count b + 1\<rparr>"
  have third: "\<exists>b'. flood_fuel (nat (w b * h b)) ?b3 [(x, y)] {(x, y)} = Some (Inr b') \<and>
            flood_loop ?b3 [(x, y)] {(x, y)} = Inr b'"
    if wf: "wf_board b" and ib: "in_bounds b x y" and nr: "\<not> revealed (cell_of b (x, y))"
  proof -
    have s: "inside b (x, y)" using ib by (simp add: inside_def)
    have f3: "frame b ?b3" by (simp add: frame_def)
    have wf3: "wf_board ?b3" by (rule frame_wf[OF f3 wf])
    have c3: "cell_of ?b3 (x, y) = (cell_of b (x, y))\<lparr>revealed := True\<rparr>"
      using cell_of_put[OF wf ib ib] by simp
    have "nat y < nat (h b)" using ib by (simp add: in_bounds_def)
    then have p: "fst (nat y, nat x) < length (grid b)"
      "snd (nat y, nat x) < length (grid b ! fst (nat y, nat x))"
      using wf ib by (simp_all add: wf_board_length wf_board_row in_bounds_def)
    have "Suc (unrevealed (grid ?b3)) = unrevealed (grid b)"
      using unrevealed_put_cell[OF p, of "(cell_of b (x, y))\<lparr>revealed := True\<rparr>"] nr
      by (simp add: cell_of_def)
    with unrevealed_le[OF wf] have "unrevealed (grid ?b3) + length [(x, y)] \<le> nat (w b * h b)"
      by simp
    then have fu: "flood_fuel (nat (w b * h b)) ?b3 [(x, y)] {(x, y)} =
        Some (flood_loop ?b3 [(x, y)] {(x, y)})"
      by (rule flood_fuel_enough)
    have "\<forall>c \<in> set [(x, y)]. inside ?b3 c" using s by (simp add: frame_inside[OF f3])
    from flood_loop_ok[OF wf3 this] obtain b' where "flood_loop ?b3 [(x, y)] {(x, y)} = Inr b'"
      by blast
    with fu show ?thesis by simp
  qed
  show ?thesis
    using flood_fuel_enough[of b st n v] flood_neighbors_measure[of b st v ns b1 st1 v1]
      third reveal_returns[of b x y ms]
    by blast
qed

text \<open>
  The theorem on the 3 by 3 board: nine passes suffice for the fill from \<open>(0, 0)\<close>
  (four do not), and the first pass reveals three cells and pushes two.
\<close>

theorem flood_fill_terminates_witness:
  "unrevealed (grid ex_start) + length [(0, 0) :: int \<times> int] \<le> 9 \<and>
   flood_fuel 9 ex_start [(0, 0)] {(0, 0)} = Some (flood_loop ex_start [(0, 0)] {(0, 0)}) \<and>
   flood_fuel 9 ex_start [(0, 0)] {(0, 0)} = Some (Inr ex_open) \<and>
   flood_fuel 4 ex_start [(0, 0)] {(0, 0)} = None \<and>
   flood_neighbors ex_start [] {(0, 0)} (neighbors ex_start 0 0) =
     Inr (ex_pass, [(1, 0), (0, 1)], {(0, 0), (1, 0), (0, 1), (1, 1)}) \<and>
   unrevealed (grid ex_pass) + length [(1, 0), (0, 1) :: int \<times> int] \<le>
     unrevealed (grid ex_start) + length ([] :: (int \<times> int) list) \<and>
   wf_board ex_placed \<and> in_bounds ex_placed 0 0 \<and> \<not> revealed (cell_of ex_placed (0, 0)) \<and>
   reachable ex_flagged \<and> is_sample (candidates ex_flagged 0 0) (mine_target ex_flagged) [(2, 2)] \<and>
   reveal [(2, 2)] ex_flagged 0 0 = Inr (ex_open, True, False)"
proof -
  have le: "unrevealed (grid ex_start) + length [(0, 0) :: int \<times> int] \<le> 9" by code_simp
  have pass: "flood_neighbors ex_start [] {(0, 0)} (neighbors ex_start 0 0) =
     Inr (ex_pass, [(1, 0), (0, 1)], {(0, 0), (1, 0), (0, 1), (1, 1)})" by code_simp
  have ev: "flood_fuel 9 ex_start [(0, 0)] {(0, 0)} = Some (Inr ex_open)"
    "flood_fuel 4 ex_start [(0, 0)] {(0, 0)} = None"
    "in_bounds ex_placed 0 0" "\<not> revealed (cell_of ex_placed (0, 0))"
    by code_simp+
  note t = flood_fill_terminates[where b = ex_start and st = "[(0, 0)]" and n = 9 and v = "{(0, 0)}"
      and ns = "neighbors ex_start 0 0" and ?b1.0 = ex_pass and ?st1.0 = "[(1, 0), (0, 1)]"
      and ?v1.0 = "{(0, 0), (1, 0), (0, 1), (1, 1)}"]
  have 1: "flood_fuel 9 ex_start [(0, 0)] {(0, 0)} = Some (flood_loop ex_start [(0, 0)] {(0, 0)})"
    using t le by blast
  have 2: "unrevealed (grid ex_pass) + length [(1, 0), (0, 1) :: int \<times> int] \<le>
     unrevealed (grid ex_start) + length ([] :: (int \<times> int) list)"
    using flood_fill_terminates[where b = ex_start and st = "[]" and v = "{(0, 0)}"
      and ns = "neighbors ex_start 0 0" and ?b1.0 = ex_pass and ?st1.0 = "[(1, 0), (0, 1)]"
      and ?v1.0 = "{(0, 0), (1, 0), (0, 1), (1, 1)}"] pass by blast
  show ?thesis
    using le 1 2 pass ev ex_placed_wf ex_flagged_reachable ex_sample ex_open_step by simp
qed

subsection \<open>C8: the chord\<close>

text \<open>
  C8. Let the game not be over, its board be reachable, and \<open>(x, y)\<close> be in bounds.
  If the cell is not revealed, or its \<open>adj\<close> is not positive, or the number of its
  flagged neighbours differs from its \<open>adj\<close>, \<open>on_chord\<close> changes nothing and opens no
  dialog. Otherwise it runs \<open>chord_loop\<close> over the neighbours, which calls \<open>reveal\<close> on
  each neighbour that is then neither flagged nor revealed (third conjunct) and changes
  the board only by revealing cells (\<open>grows\<close>). When no reveal hits a mine, every
  neighbour is flagged or revealed afterwards. When one does, the loop stops there: the
  neighbours before it were processed without a hit, the hit neighbour was an
  unflagged, unrevealed mine, the board returned is the one that this \<open>reveal\<close>
  returned with \<open>(True, True)\<close>, no other cell changed in that last step, \<open>game_over\<close>
  is set and the mine dialog is reported.
\<close>

theorem chord_correct:
  assumes "reachable b" "board a = Some b" "\<not> game_over a" "in_bounds b x y"
  shows "(\<not> revealed (cell_of b (x, y)) \<or> adj (cell_of b (x, y)) \<le> 0 \<or>
          flagged_neighbors b (x, y) \<noteq> adj (cell_of b (x, y)) \<longrightarrow>
            on_chord ms a x y = Inr (a, None)) \<and>
         (revealed (cell_of b (x, y)) \<and> 0 < adj (cell_of b (x, y)) \<and>
          flagged_neighbors b (x, y) = adj (cell_of b (x, y)) \<longrightarrow>
            (\<exists>b' hit.
               chord_loop ms b (neighbors b x y) = Inr (b', hit) \<and>
               on_chord ms a x y =
                 Inr (a\<lparr>board := Some b', game_over := hit \<or> all_safe_revealed b'\<rparr>,
                      if hit then Some GameOverDialog
                      else if all_safe_revealed b' then Some WinDialog else None) \<and>
               grows b b' \<and>
               (\<not> hit \<longrightarrow>
                  (\<forall>n \<in> set (neighbors b x y). flagged (cell_of b' n) \<or> revealed (cell_of b' n))) \<and>
               (hit \<longrightarrow>
                  (\<exists>pre n post b1.
                     neighbors b x y = pre @ n # post \<and>
                     chord_loop ms b pre = Inr (b1, False) \<and>
                     \<not> flagged (cell_of b1 n) \<and> \<not> revealed (cell_of b1 n) \<and> mine (cell_of b1 n) \<and>
                     reveal ms b1 (fst n) (snd n) = Inr (b', True, True) \<and>
                     (\<forall>c. inside b c \<and> c \<noteq> n \<longrightarrow> cell_of b' c = cell_of b1 c))))) \<and>
         (\<forall>bq nx ny ns. wf_board bq \<and> in_bounds bq nx ny \<longrightarrow>
            chord_loop ms bq ((nx, ny) # ns) =
              (if \<not> flagged (cell_of bq (nx, ny)) \<and> \<not> revealed (cell_of bq (nx, ny))
               then (case reveal ms bq nx ny of
                       Inl e \<Rightarrow> Inl e
                     | Inr (b', ok, hit) \<Rightarrow> if hit then Inr (b', True) else chord_loop ms b' ns)
               else chord_loop ms bq ns))"
proof -
  from reachable_inv[OF assms(1)] have wf: "wf_board b" by (simp add: board_inv_def)
  note loc = locate_in_bounds[OF wf assms(4)]
  have ca: "cell_at (grid b) (nat y, nat x) = cell_of b (x, y)" by (simp add: cell_of_def)
  have nsin: "\<forall>c \<in> set (neighbors b x y). in_bounds b (fst c) (snd c)"
    by (simp add: neighbors_in_bounds)
  have cf: "count_flagged (grid b) (neighbors b x y) = Inr (flagged_neighbors b (x, y))"
    using count_flagged_spec[OF wf nsin] by (simp add: flagged_neighbors_def)
  have noop: "on_chord ms a x y = Inr (a, None)"
    if "\<not> revealed (cell_of b (x, y)) \<or> adj (cell_of b (x, y)) \<le> 0 \<or>
          flagged_neighbors b (x, y) \<noteq> adj (cell_of b (x, y))"
    using that assms(2,3) by (auto simp: on_chord_def loc ca cf)
  have fire: "\<exists>b' hit.
               chord_loop ms b (neighbors b x y) = Inr (b', hit) \<and>
               on_chord ms a x y =
                 Inr (a\<lparr>board := Some b', game_over := hit \<or> all_safe_revealed b'\<rparr>,
                      if hit then Some GameOverDialog
                      else if all_safe_revealed b' then Some WinDialog else None) \<and>
               grows b b' \<and>
               (\<not> hit \<longrightarrow>
                  (\<forall>n \<in> set (neighbors b x y). flagged (cell_of b' n) \<or> revealed (cell_of b' n))) \<and>
               (hit \<longrightarrow>
                  (\<exists>pre n post b1.
                     neighbors b x y = pre @ n # post \<and>
                     chord_loop ms b pre = Inr (b1, False) \<and>
                     \<not> flagged (cell_of b1 n) \<and> \<not> revealed (cell_of b1 n) \<and> mine (cell_of b1 n) \<and>
                     reveal ms b1 (fst n) (snd n) = Inr (b', True, True) \<and>
                     (\<forall>c. inside b c \<and> c \<noteq> n \<longrightarrow> cell_of b' c = cell_of b1 c)))"
    if c: "revealed (cell_of b (x, y))" "0 < adj (cell_of b (x, y))"
      "flagged_neighbors b (x, y) = adj (cell_of b (x, y))"
  proof -
    from reachable_revealed_placed[OF assms(1)] c(1) assms(4) have mp: "mines_placed b" by blast
    have "\<forall>n \<in> set (neighbors b x y). inside b n" by (auto intro: neighbors_inside)
    from chord_loop_spec[OF wf mp this, of ms] obtain b' hit where
      r: "chord_loop ms b (neighbors b x y) = Inr (b', hit)"
      and rest: "grows b b'"
        "\<not> hit \<longrightarrow>
           (\<forall>n \<in> set (neighbors b x y). flagged (cell_of b' n) \<or> revealed (cell_of b' n))"
        "hit \<longrightarrow>
                  (\<exists>pre n post b1.
                     neighbors b x y = pre @ n # post \<and>
                     chord_loop ms b pre = Inr (b1, False) \<and>
                     \<not> flagged (cell_of b1 n) \<and> \<not> revealed (cell_of b1 n) \<and> mine (cell_of b1 n) \<and>
                     reveal ms b1 (fst n) (snd n) = Inr (b', True, True) \<and>
                     (\<forall>c. inside b c \<and> c \<noteq> n \<longrightarrow> cell_of b' c = cell_of b1 c))"
      by blast
    have oc: "on_chord ms a x y =
                 Inr (a\<lparr>board := Some b', game_over := hit \<or> all_safe_revealed b'\<rparr>,
                      if hit then Some GameOverDialog
                      else if all_safe_revealed b' then Some WinDialog else None)"
      using c assms(2,3) r
      by (simp add: on_chord_def loc ca cf app_game_over_id)
    from r oc rest show ?thesis by blast
  qed
  have stepq: "chord_loop ms bq ((nx, ny) # ns) =
              (if \<not> flagged (cell_of bq (nx, ny)) \<and> \<not> revealed (cell_of bq (nx, ny))
               then (case reveal ms bq nx ny of
                       Inl e \<Rightarrow> Inl e
                     | Inr (b', ok, hit) \<Rightarrow> if hit then Inr (b', True) else chord_loop ms b' ns)
               else chord_loop ms bq ns)"
    if "wf_board bq \<and> in_bounds bq nx ny" for bq nx ny ns
    using that by (intro chord_loop_step) simp_all
  show ?thesis
  proof (intro conjI impI allI)
    show "on_chord ms a x y = Inr (a, None)"
      if "\<not> revealed (cell_of b (x, y)) \<or> adj (cell_of b (x, y)) \<le> 0 \<or>
          flagged_neighbors b (x, y) \<noteq> adj (cell_of b (x, y))"
      using that by (rule noop)
  next
    assume "revealed (cell_of b (x, y)) \<and> 0 < adj (cell_of b (x, y)) \<and>
          flagged_neighbors b (x, y) = adj (cell_of b (x, y))"
    then show "\<exists>b' hit.
               chord_loop ms b (neighbors b x y) = Inr (b', hit) \<and>
               on_chord ms a x y =
                 Inr (a\<lparr>board := Some b', game_over := hit \<or> all_safe_revealed b'\<rparr>,
                      if hit then Some GameOverDialog
                      else if all_safe_revealed b' then Some WinDialog else None) \<and>
               grows b b' \<and>
               (\<not> hit \<longrightarrow>
                  (\<forall>n \<in> set (neighbors b x y). flagged (cell_of b' n) \<or> revealed (cell_of b' n))) \<and>
               (hit \<longrightarrow>
                  (\<exists>pre n post b1.
                     neighbors b x y = pre @ n # post \<and>
                     chord_loop ms b pre = Inr (b1, False) \<and>
                     \<not> flagged (cell_of b1 n) \<and> \<not> revealed (cell_of b1 n) \<and> mine (cell_of b1 n) \<and>
                     reveal ms b1 (fst n) (snd n) = Inr (b', True, True) \<and>
                     (\<forall>c. inside b c \<and> c \<noteq> n \<longrightarrow> cell_of b' c = cell_of b1 c)))"
      using fire by blast
  next
    fix bq nx ny ns assume "wf_board bq \<and> in_bounds bq nx ny"
    then show "chord_loop ms bq ((nx, ny) # ns) =
              (if \<not> flagged (cell_of bq (nx, ny)) \<and> \<not> revealed (cell_of bq (nx, ny))
               then (case reveal ms bq nx ny of
                       Inl e \<Rightarrow> Inl e
                     | Inr (b', ok, hit) \<Rightarrow> if hit then Inr (b', True) else chord_loop ms b' ns)
               else chord_loop ms bq ns)"
      by (rule stepq)
  qed
qed

text \<open>
  The theorem on the 4 by 3 board, at the cell \<open>(2, 1)\<close> with \<open>adj = 1\<close>: without a flag
  the chord does nothing; with the flag on the mine it reveals \<open>(3, 0)\<close> and \<open>(3, 2)\<close>
  and wins; with the flag on \<open>(3, 0)\<close> it hits the mine at \<open>(3, 1)\<close> and leaves the later
  neighbour \<open>(3, 2)\<close> unrevealed.
\<close>

theorem chord_correct_witness:
  "reachable ex5_open \<and> in_bounds ex5_open 2 1 \<and>
   flagged_neighbors ex5_open (2, 1) \<noteq> adj (cell_of ex5_open (2, 1)) \<and>
   on_chord [] \<lparr>board = Some ex5_open, game_over = False\<rparr> 2 1 =
     Inr (\<lparr>board = Some ex5_open, game_over = False\<rparr>, None) \<and>
   reachable ex5_right \<and> in_bounds ex5_right 2 1 \<and> revealed (cell_of ex5_right (2, 1)) \<and>
   0 < adj (cell_of ex5_right (2, 1)) \<and>
   flagged_neighbors ex5_right (2, 1) = adj (cell_of ex5_right (2, 1)) \<and>
   chord_loop [] ex5_right (neighbors ex5_right 2 1) = Inr (ex5_won, False) \<and>
   on_chord [] \<lparr>board = Some ex5_right, game_over = False\<rparr> 2 1 =
     Inr (\<lparr>board = Some ex5_won, game_over = True\<rparr>, Some WinDialog) \<and>
   list_all (\<lambda>n. flagged (cell_of ex5_won n) \<or> revealed (cell_of ex5_won n))
     (neighbors ex5_right 2 1) \<and>
   reachable ex5_wrong \<and> in_bounds ex5_wrong 2 1 \<and> revealed (cell_of ex5_wrong (2, 1)) \<and>
   0 < adj (cell_of ex5_wrong (2, 1)) \<and>
   flagged_neighbors ex5_wrong (2, 1) = adj (cell_of ex5_wrong (2, 1)) \<and>
   chord_loop [] ex5_wrong (neighbors ex5_wrong 2 1) = Inr (ex5_boom, True) \<and>
   on_chord [] \<lparr>board = Some ex5_wrong, game_over = False\<rparr> 2 1 =
     Inr (\<lparr>board = Some ex5_boom, game_over = True\<rparr>, Some GameOverDialog) \<and>
   mine (cell_of ex5_boom (3, 1)) \<and> revealed (cell_of ex5_boom (3, 1)) \<and>
   \<not> revealed (cell_of ex5_boom (3, 2)) \<and> \<not> flagged (cell_of ex5_boom (3, 2)) \<and>
   wf_board ex5_right \<and> in_bounds ex5_right 3 0 \<and>
   chord_loop [] ex5_right [(3, 0), (3, 2)] = Inr (ex5_won, False)"
proof -
  let ?a = "\<lambda>b. \<lparr>board = Some b, game_over = False\<rparr>"
  have h0: "in_bounds ex5_open 2 1"
    "flagged_neighbors ex5_open (2, 1) \<noteq> adj (cell_of ex5_open (2, 1))"
    by code_simp+
  have n0: "on_chord [] (?a ex5_open) 2 1 = Inr (?a ex5_open, None)"
    using chord_correct[OF ex5_open_reachable, of "?a ex5_open" 2 1 "[]"] h0 by simp
  have h1: "in_bounds ex5_right 2 1" "revealed (cell_of ex5_right (2, 1))"
    "0 < adj (cell_of ex5_right (2, 1))"
    "flagged_neighbors ex5_right (2, 1) = adj (cell_of ex5_right (2, 1))"
    by code_simp+
  have l1: "chord_loop [] ex5_right (neighbors ex5_right 2 1) = Inr (ex5_won, False)"
    by code_simp
  have w1: "all_safe_revealed ex5_won" by code_simp
  from chord_correct[OF ex5_right_reachable, of "?a ex5_right" 2 1 "[]"] h1 l1 w1
  have n1: "on_chord [] (?a ex5_right) 2 1 =
       Inr (\<lparr>board = Some ex5_won, game_over = True\<rparr>, Some WinDialog)"
    and a1: "\<forall>n \<in> set (neighbors ex5_right 2 1).
       flagged (cell_of ex5_won n) \<or> revealed (cell_of ex5_won n)"
    by auto
  have h2: "in_bounds ex5_wrong 2 1" "revealed (cell_of ex5_wrong (2, 1))"
    "0 < adj (cell_of ex5_wrong (2, 1))"
    "flagged_neighbors ex5_wrong (2, 1) = adj (cell_of ex5_wrong (2, 1))"
    by code_simp+
  have l2: "chord_loop [] ex5_wrong (neighbors ex5_wrong 2 1) = Inr (ex5_boom, True)"
    by code_simp
  from chord_correct[OF ex5_wrong_reachable, of "?a ex5_wrong" 2 1 "[]"] h2 l2
  have n2: "on_chord [] (?a ex5_wrong) 2 1 =
       Inr (\<lparr>board = Some ex5_boom, game_over = True\<rparr>, Some GameOverDialog)"
    by auto
  have e2: "mine (cell_of ex5_boom (3, 1))" "revealed (cell_of ex5_boom (3, 1))"
    "\<not> revealed (cell_of ex5_boom (3, 2))" "\<not> flagged (cell_of ex5_boom (3, 2))"
    "wf_board ex5_right" "in_bounds ex5_right 3 0"
    "chord_loop [] ex5_right [(3, 0), (3, 2)] = Inr (ex5_won, False)"
    by code_simp+
  show ?thesis
    using ex5_open_reachable h0 n0 ex5_right_reachable h1 l1 n1 a1
      ex5_wrong_reachable h2 l2 n2 e2
    by (simp add: list_all_iff)
qed

end
